theory Spec2Isabelle
  imports Complex_Main "HOL-Library.Word" "HOL-Library.Log_Nat"
begin

section \<open>ECMAScript strings\<close>

text \<open>
  The slide renderer (the component \<^verbatim>\<open>SlideRenderer\<close> with its helper \<^verbatim>\<open>SmartText\<close>)
  works on ECMAScript strings, which are sequences of 16-bit code units; \<^verbatim>\<open>length\<close>
  counts code units. A string is therefore a list of 16-bit words. \<open>js\<close> writes an ASCII
  literal as such a string.
\<close>

type_synonym code_unit = "16 word"

type_synonym jsstring = "code_unit list"

definition js :: "string \<Rightarrow> jsstring" where
  "js s = map (\<lambda>c. of_nat (of_char c)) s"

text \<open>The character \<^verbatim>\<open>$\<close> (U+0024).\<close>

definition dollar :: code_unit where
  "dollar = 0x24"

text \<open>
  The regular expression atom \<^verbatim>\<open>.\<close> (without the \<^verbatim>\<open>s\<close> flag) matches every code unit
  except the four line terminators LF, CR, LS and PS.
\<close>

definition isLineTerminator :: "code_unit \<Rightarrow> bool" where
  "isLineTerminator c \<longleftrightarrow> c = 0x0A \<or> c = 0x0D \<or> c = 0x2028 \<or> c = 0x2029"

text \<open>\<^verbatim>\<open>String.prototype.startsWith\<close> and \<^verbatim>\<open>endsWith\<close>, called with a search string only.\<close>

definition startsWith :: "jsstring \<Rightarrow> jsstring \<Rightarrow> bool" where
  "startsWith s p \<longleftrightarrow> take (length p) s = p"

definition endsWith :: "jsstring \<Rightarrow> jsstring \<Rightarrow> bool" where
  "endsWith s p \<longleftrightarrow> length p \<le> length s \<and> drop (length s - length p) s = p"

text \<open>
  \<^verbatim>\<open>slice(start, end)\<close> of strings and arrays: a negative index counts from the end, both
  indices are clamped to the range from 0 to the length, and an empty range gives the empty
  string or array. \<open>js_slice_from\<close> is the call with one argument.
\<close>

definition js_slice :: "'a list \<Rightarrow> int \<Rightarrow> int \<Rightarrow> 'a list" where
  "js_slice s start end =
     (let len = int (length s);
          from = (if start < 0 then max (len + start) 0 else min start len);
          to = (if end < 0 then max (len + end) 0 else min end len)
      in take (nat (to - from)) (drop (nat from) s))"

definition js_slice_from :: "'a list \<Rightarrow> int \<Rightarrow> 'a list" where
  "js_slice_from s start = js_slice s start (int (length s))"

subsection \<open>The pattern \<^verbatim>\<open>/(\$\$.*?\$\$|\$.*?\$)/g\<close>\<close>

text \<open>
  \<open>lazy_dot_then d s\<close> runs the lazy quantifier \<^verbatim>\<open>.*?\<close> followed by the literal \<open>d\<close> on
  \<open>s\<close>: at every position the matcher first tries the literal and only then lets
  \<^verbatim>\<open>.\<close> consume one more code unit, which fails on a line terminator and at the end of
  the input. The result is the text consumed by the quantifier and the input left after
  the literal.
\<close>

fun lazy_dot_then :: "jsstring \<Rightarrow> jsstring \<Rightarrow> (jsstring \<times> jsstring) option" where
  "lazy_dot_then d [] = (if startsWith [] d then Some ([], []) else None)"
| "lazy_dot_then d (c # cs) =
     (if startsWith (c # cs) d then Some ([], drop (length d) (c # cs))
      else if isLineTerminator c then None
      else map_option (\<lambda>(m, r). (c # m, r)) (lazy_dot_then d cs))"

text \<open>
  A match attempt anchored at the start of \<open>s\<close>: the first alternative
  \<^verbatim>\<open>\$\$.*?\$\$\<close> is tried before the second one \<^verbatim>\<open>\$.*?\$\<close>. The result is the matched
  text (which is also the text of the only capture group) and the rest of the input.
\<close>

definition exec_at :: "jsstring \<Rightarrow> (jsstring \<times> jsstring) option" where
  "exec_at s =
     (case (if startsWith s [dollar, dollar] then lazy_dot_then [dollar, dollar] (drop 2 s) else None) of
        Some (m, r) \<Rightarrow> Some ([dollar, dollar] @ m @ [dollar, dollar], r)
      | None \<Rightarrow>
          (case (if startsWith s [dollar] then lazy_dot_then [dollar] (drop 1 s) else None) of
             Some (m, r) \<Rightarrow> Some ([dollar] @ m @ [dollar], r)
           | None \<Rightarrow> None))"

text \<open>
  \<^verbatim>\<open>text.split(re)\<close>: the pattern is tried at every position \<open>q\<close> from the end \<open>p\<close> of
  the previous match on; where it fails \<open>q\<close> advances by one code unit, where it matches
  the text between \<open>p\<close> and \<open>q\<close> and the capture are appended and the search resumes
  behind the match. The text after the last match is appended at the end, also when it is
  empty. \<open>pending\<close> is the text between \<open>p\<close> and \<open>q\<close>. A match is never empty, so the
  input left gets shorter with every step.
\<close>

lemma lazy_dot_then_length:
  "lazy_dot_then d s = Some (m, r) \<Longrightarrow> length r \<le> length s"
  by (induction s arbitrary: m) (auto split: if_splits)

lemma exec_at_length:
  "exec_at s = Some (m, r) \<Longrightarrow> length r < length s"
  by (cases s) (auto simp: exec_at_def startsWith_def split: if_splits option.splits dest: lazy_dot_then_length)

function split_from :: "jsstring \<Rightarrow> jsstring \<Rightarrow> jsstring list" where
  "split_from pending [] = [pending]"
| "split_from pending (c # cs) =
     (case exec_at (c # cs) of
        None \<Rightarrow> split_from (pending @ [c]) cs
      | Some (m, rest) \<Rightarrow> pending # m # split_from [] rest)"
  by pat_completeness auto
termination
  by (relation "measure (\<lambda>(p, s). length s)") (auto dest: exec_at_length)

definition js_split :: "jsstring \<Rightarrow> jsstring list" where
  "js_split text = split_from [] text"

section \<open>ECMAScript numbers\<close>

text \<open>
  A \<^verbatim>\<open>number\<close> is an IEEE 754 binary64 value. The finite values are modelled by the
  rationals they denote, next to the two infinities and NaN; the two zeros are identified
  (the only divisions of the program divide by \<^verbatim>\<open>baseSize\<close> and by 900, so the sign of
  a zero is observable for the argument \<^verbatim>\<open>baseSize = -0\<close> only). Every arithmetic
  operation computes the exact rational result and rounds it to the nearest binary64
  value, ties to even: 53 significant bits, least exponent \<open>-1074\<close> (subnormal numbers),
  overflow to an infinity from \<open>2 ^ 1024\<close> on.
\<close>

datatype number = NaN | PosInf | NegInf | Fin rat

text \<open>
  \<open>ilog2 q\<close> is the binary exponent of a positive rational:
  \<open>2 ^ ilog2 q \<le> q < 2 ^ (ilog2 q + 1)\<close>.
\<close>

definition ilog2 :: "rat \<Rightarrow> int" where
  "ilog2 q = (case quotient_of q of (a, b) \<Rightarrow>
                (let d = bitlen a - bitlen b in if 2 powi d \<le> q then d else d - 1))"

definition round_half_even :: "rat \<Rightarrow> int" where
  "round_half_even t =
     (let f = \<lfloor>t\<rfloor>; r = t - of_int f
      in if r < 1 / 2 then f else if 1 / 2 < r then f + 1 else if even f then f else f + 1)"

definition ulp_exponent :: "rat \<Rightarrow> int" where
  "ulp_exponent q = max (ilog2 \<bar>q\<bar>) (- 1022) - 52"

definition round_to_grid :: "rat \<Rightarrow> rat" where
  "round_to_grid q = (if q = 0 then 0
     else of_int (round_half_even (q / 2 powi ulp_exponent q)) * 2 powi ulp_exponent q)"

definition round_binary64 :: "rat \<Rightarrow> number" where
  "round_binary64 q =
     (let r = round_to_grid q
      in if r = 0 then Fin 0
         else if 1024 \<le> ilog2 \<bar>r\<bar> then (if 0 < r then PosInf else NegInf)
         else Fin r)"

text \<open>The comparison \<^verbatim>\<open><=\<close>: false as soon as one operand is NaN.\<close>

fun num_le :: "number \<Rightarrow> number \<Rightarrow> bool" where
  "num_le (Fin a) (Fin b) = (a \<le> b)"
| "num_le NaN _ = False"
| "num_le _ NaN = False"
| "num_le NegInf _ = True"
| "num_le _ PosInf = True"
| "num_le PosInf _ = False"
| "num_le _ NegInf = False"

text \<open>The operators \<^verbatim>\<open>*\<close>, \<^verbatim>\<open>/\<close> and \<^verbatim>\<open>-\<close>, and \<^verbatim>\<open>Math.max\<close> and \<^verbatim>\<open>Math.floor\<close>.\<close>

fun js_mul :: "number \<Rightarrow> number \<Rightarrow> number" where
  "js_mul (Fin a) (Fin b) = round_binary64 (a * b)"
| "js_mul NaN _ = NaN"
| "js_mul _ NaN = NaN"
| "js_mul (Fin a) PosInf = (if a = 0 then NaN else if 0 < a then PosInf else NegInf)"
| "js_mul (Fin a) NegInf = (if a = 0 then NaN else if 0 < a then NegInf else PosInf)"
| "js_mul PosInf (Fin b) = (if b = 0 then NaN else if 0 < b then PosInf else NegInf)"
| "js_mul NegInf (Fin b) = (if b = 0 then NaN else if 0 < b then NegInf else PosInf)"
| "js_mul PosInf PosInf = PosInf"
| "js_mul PosInf NegInf = NegInf"
| "js_mul NegInf PosInf = NegInf"
| "js_mul NegInf NegInf = PosInf"

fun js_div :: "number \<Rightarrow> number \<Rightarrow> number" where
  "js_div (Fin a) (Fin b) =
     (if b = 0 then (if a = 0 then NaN else if 0 < a then PosInf else NegInf)
      else round_binary64 (a / b))"
| "js_div NaN _ = NaN"
| "js_div _ NaN = NaN"
| "js_div (Fin a) _ = Fin 0"
| "js_div PosInf (Fin b) = (if 0 \<le> b then PosInf else NegInf)"
| "js_div NegInf (Fin b) = (if 0 \<le> b then NegInf else PosInf)"
| "js_div _ _ = NaN"

fun js_sub :: "number \<Rightarrow> number \<Rightarrow> number" where
  "js_sub (Fin a) (Fin b) = round_binary64 (a - b)"
| "js_sub NaN _ = NaN"
| "js_sub _ NaN = NaN"
| "js_sub (Fin a) PosInf = NegInf"
| "js_sub (Fin a) NegInf = PosInf"
| "js_sub PosInf PosInf = NaN"
| "js_sub PosInf _ = PosInf"
| "js_sub NegInf NegInf = NaN"
| "js_sub NegInf _ = NegInf"

definition Math_max :: "number \<Rightarrow> number \<Rightarrow> number" where
  "Math_max x y = (if x = NaN \<or> y = NaN then NaN else if num_le x y then y else x)"

fun Math_floor :: "number \<Rightarrow> number" where
  "Math_floor (Fin a) = Fin (of_int \<lfloor>a\<rfloor>)"
| "Math_floor x = x"

text \<open>
  The numbers that are binary64 values: rounding leaves them unchanged. The arguments that
  the program can pass are of this kind.
\<close>

fun is_double :: "number \<Rightarrow> bool" where
  "is_double (Fin q) = (round_binary64 q = Fin q)"
| "is_double _ = True"

text \<open>
  Lengths of strings and arrays are integers below \<open>2 ^ 53\<close>: sums and products of them
  are computed exactly and are kept as natural numbers; \<open>num\<close> reads one as a number.
\<close>

definition num :: "nat \<Rightarrow> number" where
  "num n = Fin (of_nat n)"

text \<open>\<^verbatim>\<open>Math.ceil(n / 2)\<close> for a length \<open>n\<close>; the division by two is exact.\<close>

definition Math_ceil_half :: "nat \<Rightarrow> int" where
  "Math_ceil_half n = \<lceil>(of_nat n :: rat) / 2\<rceil>"

section \<open>The font size estimator\<close>

text \<open>
  \<^verbatim>\<open>getDynamicFontSize\<close> returns the template string \<^verbatim>\<open>`${n}px`\<close>; the model keeps the
  number \<open>n\<close>. The function is a closure of the component: \<open>isThumbnail\<close> is the
  component's property. Decimal literals such as \<^verbatim>\<open>0.4\<close> denote the nearest binary64 value.
\<close>

datatype css_length = Px number

fun px_le :: "css_length \<Rightarrow> css_length \<Rightarrow> bool" where
  "px_le (Px x) (Px y) = num_le x y"

text \<open>The weighted complexity of a content list: its characters plus 40 for each line.\<close>

definition complexity_of :: "jsstring list \<Rightarrow> nat" where
  "complexity_of content = length (concat content) + length content * 40"

definition getDynamicFontSize :: "bool \<Rightarrow> jsstring list \<Rightarrow> number \<Rightarrow> number \<Rightarrow> css_length" where
  "getDynamicFontSize isThumbnail content baseSize minSize =
     (if isThumbnail then Px (js_mul baseSize (round_binary64 (4 / 10)))
      else
        let textLength = length (concat content);
            lineCount = length content;
            complexity = textLength + lineCount * 40;
            easyThreshold = 300;
            hardLimit = 1200
        in if complexity \<le> easyThreshold then Px baseSize
           else
             let scale = Math_max (js_div minSize baseSize)
                   (js_sub (num 1)
                      (js_mul (js_div (js_sub (num complexity) (num easyThreshold))
                                      (js_sub (num hardLimit) (num easyThreshold)))
                              (round_binary64 (6 / 10))))
             in Px (Math_floor (js_mul baseSize scale)))"

text \<open>
  The scale factor as the specification writes it,
  \<open>max(minSize/baseSize, 1 - ((complexity - 300) / (1200 - 300)) * 0.6)\<close>; \<open>shrink\<close> is its
  second argument, the linear shrink factor.
\<close>

definition shrink :: "nat \<Rightarrow> number" where
  "shrink c = js_sub (num 1)
          (js_mul (js_div (js_sub (num c) (num 300)) (js_sub (num 1200) (num 300)))
                  (round_binary64 (6 / 10)))"

definition spec_scale :: "nat \<Rightarrow> number \<Rightarrow> number \<Rightarrow> number" where
  "spec_scale complexity baseSize minSize = Math_max (js_div minSize baseSize) (shrink complexity)"

section \<open>Text with embedded math\<close>

text \<open>
  \<^verbatim>\<open>SmartText\<close> renders a string as React elements. The typed segments it renders
  (plain text, inline math, block math) are the segments of the specification: \<open>classify\<close>
  is the case distinction of the callback that maps the parts of the split, and \<open>segment\<close>
  is the sequence of segments that \<^verbatim>\<open>SmartText\<close> renders for a text (none for the empty
  string, for which the component returns \<^verbatim>\<open>null\<close>).
\<close>

datatype segment = PlainText jsstring | InlineMath jsstring | BlockMath jsstring

definition classify :: "jsstring \<Rightarrow> segment" where
  "classify part =
     (if startsWith part [dollar, dollar] \<and> endsWith part [dollar, dollar]
        then BlockMath (js_slice part 2 (- 2))
      else if startsWith part [dollar] \<and> endsWith part [dollar]
        then InlineMath (js_slice part 1 (- 1))
      else PlainText part)"

definition segment :: "jsstring \<Rightarrow> segment list" where
  "segment text =
     (if text = [] then []
      else if startsWith text [dollar, dollar] \<and> endsWith text [dollar, dollar]
        then [BlockMath (js_slice text 2 (- 2))]
      else map classify (js_split text))"

text \<open>
  React elements: an element has a tag (or component name), properties and children.
  \<open>Null\<close> is a child that renders nothing (\<^verbatim>\<open>null\<close>, \<^verbatim>\<open>false\<close>, \<^verbatim>\<open>undefined\<close> or
  the empty string).
\<close>

datatype attr =
    ClassName string
  | Key nat
  | FontSize css_length
  | MathProp jsstring
  | Src jsstring
  | Alt jsstring
  | OnLoadSetImgLoaded
  | Attr string string

datatype node =
    Null
  | Text jsstring
  | Element string "attr list" "node list"

text \<open>
  The scrollable container of a block formula, with the \<^verbatim>\<open>key\<close> property where the
  source gives one.
\<close>

definition block_math :: "attr list \<Rightarrow> jsstring \<Rightarrow> node" where
  "block_math key math =
     Element ''div'' (key @ [ClassName ''overflow-x-auto max-w-full my-2 custom-scrollbar''])
       [Element ''BlockMath'' [MathProp math] []]"

fun render_segment :: "nat \<Rightarrow> segment \<Rightarrow> node" where
  "render_segment i (BlockMath math) = block_math [Key i] math"
| "render_segment i (InlineMath math) = Element ''InlineMath'' [Key i, MathProp math] []"
| "render_segment i (PlainText part) = Element ''span'' [Key i] [Text part]"

definition SmartText :: "jsstring \<Rightarrow> node" where
  "SmartText text =
     (if text = [] then Null
      else if startsWith text [dollar, dollar] \<and> endsWith text [dollar, dollar]
        then block_math [] (js_slice text 2 (- 2))
      else
        let parts = js_split text
        in Element ''span'' [ClassName ''break-words whitespace-pre-wrap'']
             (map (\<lambda>(i, part). render_segment i (classify part)) (enumerate 0 parts)))"

section \<open>Slides and layouts\<close>

text \<open>
  The slide of \<^verbatim>\<open>types.ts\<close>. The layout tag is a string at run time (the slides come
  from a JSON answer), and \<^verbatim>\<open>renderLayout\<close> has a default branch for tags outside the
  six declared ones. The fields \<^verbatim>\<open>id\<close> and \<^verbatim>\<open>notes\<close> are called \<open>slide_id\<close> and
  \<open>slide_notes\<close> here.
\<close>

record Slide =
  slide_id :: jsstring
  title :: jsstring
  subtitle :: "jsstring option"
  content :: "jsstring list"
  layout :: jsstring
  slide_notes :: "jsstring option"
  imageUrl :: "jsstring option"
  imagePrompt :: "jsstring option"

text \<open>
  An optional string in a condition: \<^verbatim>\<open>undefined\<close> and the empty string are falsy.
  \<open>index0\<close> is the array access \<^verbatim>\<open>content[0]\<close>, which is \<^verbatim>\<open>undefined\<close> on the empty array.
\<close>

definition truthy :: "jsstring option \<Rightarrow> jsstring option" where
  "truthy s = (case s of None \<Rightarrow> None | Some t \<Rightarrow> if t = [] then None else Some t)"

definition index0 :: "'a list \<Rightarrow> 'a option" where
  "index0 xs = (case xs of [] \<Rightarrow> None | x # _ \<Rightarrow> Some x)"

text \<open>The three constants of the branch for the layout \<^verbatim>\<open>split\<close>.\<close>

definition leftContent :: "Slide \<Rightarrow> jsstring list" where
  "leftContent slide = js_slice (content slide) 0 (Math_ceil_half (length (content slide)))"

definition rightContent :: "Slide \<Rightarrow> jsstring list" where
  "rightContent slide = js_slice_from (content slide) (Math_ceil_half (length (content slide)))"

definition splitFontSize :: "bool \<Rightarrow> Slide \<Rightarrow> css_length" where
  "splitFontSize isThumbnail slide =
     getDynamicFontSize isThumbnail (content slide)
       (if isThumbnail then num 9 else num 18) (if isThumbnail then num 7 else num 12)"

text \<open>The list items of a bullet list; the class of the bullet differs between layouts.\<close>

definition bullet :: jsstring where
  "bullet = [0x2022]"

definition list_items :: "string \<Rightarrow> jsstring list \<Rightarrow> node list" where
  "list_items bulletClass items =
     map (\<lambda>(i, item).
            Element ''li'' [Key i, ClassName ''flex items-start'']
              [Element ''span'' [ClassName bulletClass] [Text bullet], SmartText item])
         (enumerate 0 items)"

text \<open>
  The branches of the \<^verbatim>\<open>switch\<close> in \<^verbatim>\<open>renderLayout\<close>, one definition for each returned
  element, and the \<^verbatim>\<open>switch\<close> itself. \<open>imgLoaded\<close> is the state of the component.
\<close>

definition renderTitle :: "bool \<Rightarrow> Slide \<Rightarrow> node" where
  "renderTitle isThumbnail slide =
     Element ''div''
       [ClassName ''flex flex-col items-center justify-center h-full text-center p-8 md:p-12 bg-gradient-to-br from-indigo-900 to-slate-900 text-white overflow-hidden'']
       [Element ''h1''
          [ClassName ''font-bold mb-4 md:mb-6 tracking-tight leading-tight max-w-full break-words'',
           FontSize (getDynamicFontSize isThumbnail [title slide]
                       (if isThumbnail then num 24 else num 64)
                       (if isThumbnail then num 12 else num 32))]
          [SmartText (title slide)],
        (case truthy (subtitle slide) of
           Some sub \<Rightarrow>
             Element ''p''
               [ClassName ''text-indigo-200 font-light max-w-full opacity-90'',
                FontSize (getDynamicFontSize isThumbnail [sub]
                            (if isThumbnail then num 12 else num 28)
                            (if isThumbnail then num 8 else num 16))]
               [SmartText sub]
         | None \<Rightarrow> Null)]"

definition renderQuote :: "bool \<Rightarrow> Slide \<Rightarrow> node" where
  "renderQuote isThumbnail slide =
     Element ''div''
       [ClassName ''flex flex-col items-center justify-center h-full p-10 md:p-20 bg-slate-50 italic text-center overflow-hidden'']
       [Element ''div'' [ClassName ''relative max-w-full'']
          [(if \<not> isThumbnail then
              Element ''span''
                [ClassName ''absolute -top-12 -left-12 text-9xl text-slate-200 font-serif opacity-50 select-none'']
                [Text [0x22]]
            else Null),
           Element ''p''
             [ClassName ''text-slate-700 font-medium relative z-10 break-words leading-relaxed'',
              FontSize (getDynamicFontSize isThumbnail (content slide)
                          (if isThumbnail then num 14 else num 40)
                          (if isThumbnail then num 10 else num 20))]
             [case index0 (content slide) of None \<Rightarrow> Null | Some text \<Rightarrow> SmartText text],
           Element ''div''
             [ClassName ''mt-6 md:mt-8 text-indigo-600 font-bold not-italic border-t border-slate-200 pt-4'',
              FontSize (if isThumbnail then Px (num 10) else Px (num 20))]
             [Text [0x2014, 0x20], SmartText (title slide)]]]"

definition renderImage :: "bool \<Rightarrow> bool \<Rightarrow> Slide \<Rightarrow> node" where
  "renderImage isThumbnail imgLoaded slide =
     (let isLeft = (layout slide = js ''image-left'') in
      Element ''div''
        [ClassName (''flex h-full bg-white '' @ (if isLeft then ''flex-row'' else ''flex-row-reverse'')
                    @ '' overflow-hidden'')]
        [Element ''div''
           [ClassName ''w-1/2 h-full overflow-hidden bg-slate-50 flex items-center justify-center relative'']
           [case truthy (imageUrl slide) of
              Some url \<Rightarrow>
              Element ''Fragment'' []
                [(if \<not> imgLoaded then
                    Element ''div''
                      [ClassName ''absolute inset-0 bg-slate-100 animate-pulse flex items-center justify-center text-slate-400'']
                      [Text (js ''Loading...'')]
                  else Null),
                 Element ''img''
                   [Src url, Alt (title slide),
                    ClassName (''w-full h-full object-contain transition-opacity duration-300 ''
                               @ (if imgLoaded then ''opacity-100'' else ''opacity-0'')),
                    OnLoadSetImgLoaded]
                   []]
            | None \<Rightarrow>
              Element ''div'' [ClassName ''text-slate-400 text-sm animate-pulse flex flex-col items-center'']
                [Element ''svg''
                   [ClassName ''w-12 h-12 mb-2'', Attr ''fill'' ''none'', Attr ''stroke'' ''currentColor'',
                    Attr ''viewBox'' ''0 0 24 24'']
                   [Element ''path''
                      [Attr ''strokeLinecap'' ''round'', Attr ''strokeLinejoin'' ''round'',
                       Attr ''strokeWidth'' ''2'',
                       Attr ''d'' ''M4 16l4.586-4.586a2 2 0 012.828 0L16 16m-2-2l1.586-1.586a2 2 0 012.828 0L20 14m-6-6h.01M6 20h12a2 2 0 002-2V6a2 2 0 00-2-2H6a2 2 0 00-2 2v12a2 2 0 002 2z'']
                      []],
                 Element ''span'' [] [Text (js ''Visual Aid Pending...'')]]],
         Element ''div'' [ClassName ''w-1/2 p-6 md:p-10 flex flex-col justify-center overflow-hidden'']
           [Element ''h2''
              [ClassName ((if isThumbnail then ''text-sm'' else ''text-3xl'')
                          @ '' font-bold mb-4 text-slate-800 leading-tight border-b border-slate-100 pb-2'')]
              [SmartText (title slide)],
            Element ''ul''
              [ClassName ''space-y-3 text-slate-600 overflow-hidden'',
               FontSize (getDynamicFontSize isThumbnail (content slide)
                           (if isThumbnail then num 10 else num 20)
                           (if isThumbnail then num 8 else num 12))]
              (list_items ''mr-2 text-indigo-500 flex-shrink-0 mt-1.5'' (content slide))]])"

definition renderSplit :: "bool \<Rightarrow> Slide \<Rightarrow> node" where
  "renderSplit isThumbnail slide =
     Element ''div'' [ClassName ''flex flex-col h-full bg-white overflow-hidden'']
       [Element ''div'' [ClassName ''p-6 md:p-8 border-b border-slate-100 flex-shrink-0'']
          [Element ''h2''
             [ClassName ((if isThumbnail then ''text-sm'' else ''text-3xl'')
                         @ '' font-bold text-slate-800 tracking-tight'')]
             [SmartText (title slide)]],
        Element ''div'' [ClassName ''flex flex-1 min-h-0'']
          [Element ''div'' [ClassName ''w-1/2 p-6 md:p-8 border-r border-slate-100 overflow-hidden'']
             [Element ''ul''
                [ClassName ''space-y-3 text-slate-600'', FontSize (splitFontSize isThumbnail slide)]
                (list_items ''mr-2 text-indigo-500 flex-shrink-0 mt-1.5'' (leftContent slide))],
           Element ''div'' [ClassName ''w-1/2 p-6 md:p-8 overflow-hidden'']
             [Element ''ul''
                [ClassName ''space-y-3 text-slate-600'', FontSize (splitFontSize isThumbnail slide)]
                (list_items ''mr-2 text-indigo-500 flex-shrink-0 mt-1.5'' (rightContent slide))]]]"

definition renderContent :: "bool \<Rightarrow> Slide \<Rightarrow> node" where
  "renderContent isThumbnail slide =
     Element ''div'' [ClassName ''flex flex-col h-full bg-white p-8 md:p-14 overflow-hidden'']
       [Element ''h2''
          [ClassName ''font-bold mb-6 md:mb-10 text-slate-800 border-b-4 border-indigo-500 pb-3 inline-block self-start max-w-full'',
           FontSize (if isThumbnail then Px (num 16) else Px (num 44))]
          [SmartText (title slide)],
        Element ''div'' [ClassName ''flex-1 min-h-0 overflow-hidden'']
          [Element ''ul''
             [ClassName ''space-y-4 md:space-y-6 text-slate-700 h-full overflow-hidden'',
              FontSize (getDynamicFontSize isThumbnail (content slide)
                          (if isThumbnail then num 11 else num 26)
                          (if isThumbnail then num 9 else num 14))]
             (list_items ''mr-3 md:mr-4 text-indigo-600 font-bold flex-shrink-0 mt-1'' (content slide))]]"

definition renderLayout :: "bool \<Rightarrow> bool \<Rightarrow> Slide \<Rightarrow> node" where
  "renderLayout isThumbnail imgLoaded slide =
     (if layout slide = js ''title'' then renderTitle isThumbnail slide
      else if layout slide = js ''quote'' then renderQuote isThumbnail slide
      else if layout slide = js ''image-left'' \<or> layout slide = js ''image-right''
        then renderImage isThumbnail imgLoaded slide
      else if layout slide = js ''split'' then renderSplit isThumbnail slide
      else renderContent isThumbnail slide)"

section \<open>Notions of the specification\<close>

text \<open>
  Restoring a text from its segments: the payloads in order, the math payloads wrapped in
  their delimiters again.
\<close>

definition restore_segment :: "segment \<Rightarrow> jsstring" where
  "restore_segment s = (case s of
       PlainText p \<Rightarrow> p
     | InlineMath m \<Rightarrow> [dollar] @ m @ [dollar]
     | BlockMath m \<Rightarrow> [dollar, dollar] @ m @ [dollar, dollar])"

definition restore :: "segment list \<Rightarrow> jsstring" where
  "restore segs = concat (map restore_segment segs)"

text \<open>\<^verbatim>\<open>String.prototype.trim\<close>: white space and line terminators are removed at both ends.\<close>

definition isWhiteSpace :: "code_unit \<Rightarrow> bool" where
  "isWhiteSpace c \<longleftrightarrow>
     c \<in> set [0x09, 0x0A, 0x0B, 0x0C, 0x0D, 0x20, 0xA0, 0x1680, 0x2028, 0x2029, 0x202F,
               0x205F, 0x3000, 0xFEFF]
     \<or> (0x2000 \<le> c \<and> c \<le> 0x200A)"

definition trim :: "jsstring \<Rightarrow> jsstring" where
  "trim s = rev (dropWhile isWhiteSpace (rev (dropWhile isWhiteSpace s)))"

text \<open>
  A text with balanced delimiters is a sequence of plain code units other than
  \<^verbatim>\<open>$\<close> and of spans \<^verbatim>\<open>$p$\<close> and \<^verbatim>\<open>$$p$$\<close> whose payload \<open>p\<close> contains no
  \<^verbatim>\<open>$\<close>. With \<open>strict = False\<close> every such payload is admitted, the empty one and one that
  spans several lines included; with \<open>strict = True\<close> no payload contains a line terminator
  and the payload of an inline span \<^verbatim>\<open>$p$\<close> is not empty.
\<close>

definition block_payload_ok :: "bool \<Rightarrow> jsstring \<Rightarrow> bool" where
  "block_payload_ok strict p \<longleftrightarrow>
     (if strict then list_all (\<lambda>c. \<not> isLineTerminator c) p else True)"

definition inline_payload_ok :: "bool \<Rightarrow> jsstring \<Rightarrow> bool" where
  "inline_payload_ok strict p \<longleftrightarrow>
     (if strict then p \<noteq> [] \<and> list_all (\<lambda>c. \<not> isLineTerminator c) p else True)"

lemma length_dropWhile_tl_le: "length (dropWhile P (tl xs)) - n \<le> length xs"
  by (rule le_trans[OF diff_le_self], rule le_trans[OF length_dropWhile_le]) simp

lemma length_dropWhile_minus_le: "length (dropWhile P xs) - n \<le> length xs"
  by (rule le_trans[OF diff_le_self]) (rule length_dropWhile_le)

function balanced :: "bool \<Rightarrow> jsstring \<Rightarrow> bool" where
  "balanced strict [] = True"
| "balanced strict (c # cs) =
     (if c \<noteq> dollar then balanced strict cs
      else if startsWith cs [dollar] then
        (let p = takeWhile (\<lambda>x. x \<noteq> dollar) (tl cs);
             r = dropWhile (\<lambda>x. x \<noteq> dollar) (tl cs)
         in (block_payload_ok strict p \<and> startsWith r [dollar, dollar] \<and>
             balanced strict (drop 2 r))
            \<or> (inline_payload_ok strict [] \<and> balanced strict (tl cs)))
      else
        (let p = takeWhile (\<lambda>x. x \<noteq> dollar) cs;
             r = dropWhile (\<lambda>x. x \<noteq> dollar) cs
         in inline_payload_ok strict p \<and> startsWith r [dollar] \<and>
            balanced strict (drop 1 r)))"
  by pat_completeness auto
termination
  by (relation "measure (\<lambda>(m, s). length s)")
     (auto simp: less_Suc_eq_le length_dropWhile_tl_le length_dropWhile_minus_le)

text \<open>A code unit that the atom \<^verbatim>\<open>.\<close> accepts and that is no delimiter.\<close>

definition plain_unit :: "code_unit \<Rightarrow> bool" where
  "plain_unit c \<longleftrightarrow> c \<noteq> dollar \<and> \<not> isLineTerminator c"

text \<open>The outermost elements with a given tag, in document order.\<close>

fun elements_named :: "string \<Rightarrow> node \<Rightarrow> node list" where
  "elements_named tag Null = []"
| "elements_named tag (Text s) = []"
| "elements_named tag (Element t attrs children) =
     (if t = tag then [Element t attrs children]
      else concat (map (elements_named tag) children))"

text \<open>Example contents and slides.\<close>

definition eight_lines :: "jsstring list" where
  "eight_lines = [js ''a'', js ''a'', js ''a'', js ''a'', js ''a'', js ''a'', js ''a'', js ''a'']"

definition one_long_line :: "jsstring list" where
  "one_long_line = [replicate 780 0x61]"

definition eight_lines_longer :: "jsstring list" where
  "eight_lines_longer = [js ''ab'', js ''a'', js ''a'', js ''a'', js ''a'', js ''a'', js ''a'', js ''a'']"

definition quote_one :: Slide where
  "quote_one = \<lparr>slide_id = js ''q1'', title = js ''Author'', subtitle = None,
                 content = [js ''a''], layout = js ''quote'', slide_notes = None,
                 imageUrl = None, imagePrompt = None\<rparr>"

definition quote_many :: Slide where
  "quote_many = \<lparr>slide_id = js ''q2'', title = js ''Author'', subtitle = None,
                  content = eight_lines, layout = js ''quote'', slide_notes = None,
                  imageUrl = None, imagePrompt = None\<rparr>"

definition five :: Slide where
  "five = \<lparr>slide_id = js ''s5'', title = js ''T'', subtitle = None,
            content = [js ''a'', js ''b'', js ''c'', js ''d'', js ''e''], layout = js ''split'',
            slide_notes = None, imageUrl = None, imagePrompt = None\<rparr>"

section \<open>Properties of rounding\<close>

lemma bitlen_powi:
  assumes "0 < a"
  shows "(2::rat) powi (bitlen a - 1) \<le> of_int a" and "of_int a < (2::rat) powi bitlen a"
proof -
  from bitlen_bounds[OF assms]
  have 1: "2 ^ nat (bitlen a - 1) \<le> a" and 2: "a < 2 ^ nat (bitlen a)" by auto
  have ge: "1 \<le> bitlen a"
    using assms bitlen_eq_zero_iff[of a] bitlen_nonneg[of a] by linarith
  have "(2::rat) powi (bitlen a - 1) = of_int (2 ^ nat (bitlen a - 1))"
    using ge by (simp add: power_int_def)
  also have "\<dots> \<le> of_int a" using 1 by (simp only: of_int_le_iff)
  finally show "(2::rat) powi (bitlen a - 1) \<le> of_int a" .
  have "(of_int a :: rat) < of_int (2 ^ nat (bitlen a))" using 2 by (simp only: of_int_less_iff)
  also have "\<dots> = 2 powi bitlen a" using ge by (simp add: power_int_def)
  finally show "of_int a < (2::rat) powi bitlen a" .
qed

lemma ilog2_bounds:
  assumes "0 < q"
  shows "2 powi (ilog2 q) \<le> q \<and> q < 2 powi (ilog2 q + 1)"
proof -
  obtain a b where ab: "quotient_of q = (a, b)" by (cases "quotient_of q")
  then have b: "0 < b" and q: "q = of_int a / of_int b"
    by (auto simp: quotient_of_denom_pos quotient_of_div)
  with assms have a: "0 < a"
    by (simp add: zero_less_divide_iff)
  define d where "d = bitlen a - bitlen b"
  note la = bitlen_powi[OF a] and lb = bitlen_powi[OF b]
  have pos: "\<And>k. (0::rat) < 2 powi k" by (simp add: zero_less_power_int)
  have "q < 2 powi bitlen a / of_int b"
    unfolding q using la(2) b by (simp add: divide_strict_right_mono)
  also have "\<dots> \<le> 2 powi bitlen a / 2 powi (bitlen b - 1)"
    using lb(1) pos b by (intro divide_left_mono) (auto simp: less_imp_le intro!: mult_pos_pos)
  also have "\<dots> = 2 powi (d + 1)"
    by (simp add: d_def power_int_diff [symmetric] algebra_simps)
  finally have up: "q < 2 powi (d + 1)" .
  have "2 powi (d - 1) = 2 powi (bitlen a - 1) / (2::rat) powi bitlen b"
    by (simp add: d_def power_int_diff [symmetric] algebra_simps)
  also have "\<dots> \<le> of_int a / 2 powi bitlen b"
    using la(1) pos by (simp add: divide_right_mono less_imp_le)
  also have "\<dots> \<le> of_int a / of_int b"
    using lb(2) a b by (intro divide_left_mono) (auto simp: less_imp_le pos)
  finally have lo: "2 powi (d - 1) \<le> q" unfolding q .
  show ?thesis
    using up lo ab by (auto simp: ilog2_def d_def Let_def)
qed

lemma ilog2_unique:
  assumes "2 powi k \<le> q" and "q < 2 powi (k + 1)"
  shows "ilog2 q = k"
proof -
  have "(0::rat) < 2 powi k" by (rule zero_less_power_int) simp
  then have q: "0 < q" using assms(1) by (rule less_le_trans)
  note b = ilog2_bounds[OF q]
  have "\<not> ilog2 q < k"
  proof
    assume "ilog2 q < k"
    then have "(2::rat) powi (ilog2 q + 1) \<le> 2 powi k"
      by (intro power_int_increasing) auto
    with b assms show False by simp
  qed
  moreover have "\<not> k < ilog2 q"
  proof
    assume "k < ilog2 q"
    then have "(2::rat) powi (k + 1) \<le> 2 powi ilog2 q"
      by (intro power_int_increasing) auto
    with b assms show False by simp
  qed
  ultimately show ?thesis by simp
qed

lemma ilog2_mono:
  assumes "0 < x" and "x \<le> y"
  shows "ilog2 x \<le> ilog2 y"
proof (rule ccontr)
  assume "\<not> ilog2 x \<le> ilog2 y"
  then have "(2::rat) powi (ilog2 y + 1) \<le> 2 powi ilog2 x"
    by (intro power_int_increasing) auto
  moreover have "0 < y" using assms by simp
  ultimately show False
    using ilog2_bounds[OF assms(1)] ilog2_bounds[OF \<open>0 < y\<close>] assms(2) by simp
qed

lemma ilog2_ge_iff:
  assumes "0 < r"
  shows "k \<le> ilog2 r \<longleftrightarrow> 2 powi k \<le> r"
proof
  assume "k \<le> ilog2 r"
  then have "(2::rat) powi k \<le> 2 powi ilog2 r" by (intro power_int_increasing) auto
  also have "\<dots> \<le> r" using ilog2_bounds[OF assms] by simp
  finally show "2 powi k \<le> r" .
next
  assume *: "2 powi k \<le> r"
  show "k \<le> ilog2 r"
  proof (rule ccontr)
    assume "\<not> k \<le> ilog2 r"
    then have "(2::rat) powi (ilog2 r + 1) \<le> 2 powi k" by (intro power_int_increasing) auto
    with * ilog2_bounds[OF assms] show False by simp
  qed
qed

lemma round_half_even_of_int [simp]: "round_half_even (of_int n) = n"
  by (simp add: round_half_even_def)

lemma round_half_even_mono:
  assumes "x \<le> y"
  shows "round_half_even x \<le> round_half_even y"
proof -
  have fl: "\<lfloor>x\<rfloor> \<le> \<lfloor>y\<rfloor>" using assms by (rule floor_mono)
  show ?thesis
  proof (cases "\<lfloor>x\<rfloor> = \<lfloor>y\<rfloor>")
    case True
    with assms show ?thesis
      by (auto simp: round_half_even_def Let_def)
  next
    case False
    with fl have "\<lfloor>x\<rfloor> + 1 \<le> \<lfloor>y\<rfloor>" by simp
    moreover have "round_half_even x \<le> \<lfloor>x\<rfloor> + 1"
      by (simp add: round_half_even_def Let_def)
    moreover have "\<lfloor>y\<rfloor> \<le> round_half_even y"
      by (simp add: round_half_even_def Let_def)
    ultimately show ?thesis by linarith
  qed
qed

lemma round_half_even_uminus: "round_half_even (- t) = - round_half_even t"
proof (cases "t = of_int \<lfloor>t\<rfloor>")
  case True
  then obtain n where "t = of_int n" ..
  then have "- t = of_int (- n)" by simp
  then show ?thesis unfolding \<open>t = of_int n\<close> by (simp only: round_half_even_of_int)
next
  case False
  define f where "f = \<lfloor>t\<rfloor>"
  have "of_int f \<le> t" unfolding f_def by (rule of_int_floor_le)
  moreover have "of_int f \<noteq> t" using False unfolding f_def by (rule not_sym)
  ultimately have lt: "of_int f < t" by (rule le_neq_trans)
  have ub: "t < of_int f + 1" unfolding f_def by linarith
  have fl: "\<lfloor>- t\<rfloor> = - f - 1"
    by (rule floor_unique) (use lt ub in simp_all)
  have ev: "even (- f - 1) \<longleftrightarrow> odd f" by simp
  consider "t - of_int f < 1 / 2" | "1 / 2 < t - of_int f" | "t - of_int f = 1 / 2"
    by linarith
  then show ?thesis
  proof cases
    case 1
    then have "round_half_even t = f" by (simp add: round_half_even_def Let_def f_def)
    moreover from 1 have "round_half_even (- t) = - f"
      unfolding round_half_even_def Let_def fl by simp
    ultimately show ?thesis by simp
  next
    case 2
    then have "round_half_even t = f + 1" by (simp add: round_half_even_def Let_def f_def)
    moreover from 2 have "round_half_even (- t) = - f - 1"
      unfolding round_half_even_def Let_def fl by simp
    ultimately show ?thesis by simp
  next
    case 3
    then have "round_half_even t = (if even f then f else f + 1)"
      by (simp add: round_half_even_def Let_def f_def)
    moreover from 3 have "- t - of_int (- f - 1) = 1 / 2" by simp
    then have "round_half_even (- t) = (if even (- f - 1) then - f - 1 else - f - 1 + 1)"
      unfolding round_half_even_def Let_def fl by (simp only: less_irrefl if_False)
    ultimately show ?thesis by (simp add: ev)
  qed
qed

lemma round_half_even_nonneg: "0 \<le> t \<Longrightarrow> 0 \<le> round_half_even t"
  using round_half_even_mono[of 0 t] round_half_even_of_int[of 0] by simp

lemma round_half_even_abs_le:
  assumes "\<bar>t\<bar> \<le> of_int m"
  shows "\<bar>round_half_even t\<bar> \<le> m"
proof -
  have u: "t \<le> of_int m" and l: "of_int (- m) \<le> t"
    using assms by (simp_all add: abs_le_iff)
  have 1: "round_half_even t \<le> round_half_even (of_int m)"
    using u by (rule round_half_even_mono)
  have 2: "round_half_even (of_int (- m)) \<le> round_half_even t"
    using l by (rule round_half_even_mono)
  from 1 2 show ?thesis unfolding round_half_even_of_int by linarith
qed

lemma round_half_even_nearest:
  assumes "\<bar>t - of_int n\<bar> < 1 / 2"
  shows "round_half_even t = n"
proof -
  have lo: "of_int n - 1 / 2 < t" and hi: "t < of_int n + 1 / 2"
    using assms unfolding abs_less_iff by linarith+
  show ?thesis
  proof (cases "of_int n \<le> t")
    case True
    then have "\<lfloor>t\<rfloor> = n" using hi by (intro floor_unique) simp_all
    then show ?thesis using hi by (simp add: round_half_even_def Let_def)
  next
    case False
    then have "\<lfloor>t\<rfloor> = n - 1" using lo by (intro floor_unique) simp_all
    then show ?thesis using lo by (simp add: round_half_even_def Let_def)
  qed
qed

lemma round_half_even_tie:
  assumes "t = of_int n + 1 / 2 \<or> t = of_int n - 1 / 2" and "even n"
  shows "round_half_even t = n"
  using assms(1)
proof
  assume t: "t = of_int n + 1 / 2"
  then have "\<lfloor>t\<rfloor> = n" by (intro floor_unique) simp_all
  then show ?thesis using t assms(2) by (simp add: round_half_even_def Let_def)
next
  assume t: "t = of_int n - 1 / 2"
  then have "\<lfloor>t\<rfloor> = n - 1" by (intro floor_unique) simp_all
  then show ?thesis using t assms(2) by (simp add: round_half_even_def Let_def)
qed

lemma powi2_pos [simp]: "(0::rat) < 2 powi k"
  by (rule zero_less_power_int) simp

lemma round_to_grid_uminus: "round_to_grid (- q) = - round_to_grid q"
  by (simp add: round_to_grid_def ulp_exponent_def round_half_even_uminus)

lemma round_to_grid_nonneg: "0 \<le> q \<Longrightarrow> 0 \<le> round_to_grid q"
  by (simp add: round_to_grid_def round_half_even_nonneg less_imp_le)

lemma round_to_grid_mono_pos:
  assumes "0 < x" and "x \<le> y"
  shows "round_to_grid x \<le> round_to_grid y"
proof -
  have y: "0 < y" using assms by simp
  define ex where "ex = ulp_exponent x"
  define ey where "ey = ulp_exponent y"
  have rx: "round_to_grid x = of_int (round_half_even (x / 2 powi ex)) * 2 powi ex"
    using assms(1) by (simp add: round_to_grid_def ex_def)
  have ry: "round_to_grid y = of_int (round_half_even (y / 2 powi ey)) * 2 powi ey"
    using y by (simp add: round_to_grid_def ey_def)
  have le: "ex \<le> ey"
    using ilog2_mono[OF assms] assms(1) y by (simp add: ex_def ey_def ulp_exponent_def)
  show ?thesis
  proof (cases "ex = ey")
    case True
    have "x / 2 powi ey \<le> y / 2 powi ey"
      using assms(2) by (simp add: divide_right_mono less_imp_le)
    then have "round_half_even (x / 2 powi ey) \<le> round_half_even (y / 2 powi ey)"
      by (rule round_half_even_mono)
    then show ?thesis
      unfolding rx ry True by (simp add: mult_right_mono less_imp_le)
  next
    case False
    with le have lt: "ex < ey" by simp
    have ky: "ey = ilog2 y - 52" and kx: "ilog2 x \<le> ex + 52"
      using lt assms(1) y by (auto simp: ex_def ey_def ulp_exponent_def)
    have "x < 2 powi (ilog2 x + 1)" using ilog2_bounds[OF assms(1)] by simp
    also have "\<dots> \<le> 2 powi (ex + 53)" using kx by (intro power_int_increasing) auto
    finally have "x / 2 powi ex \<le> 2 powi (ex + 53) / 2 powi ex"
      by (simp add: divide_right_mono less_imp_le)
    also have "\<dots> = of_int (2 ^ 53)"
      by (simp add: power_int_diff [symmetric])
    finally have "round_half_even (x / 2 powi ex) \<le> round_half_even (of_int (2 ^ 53))"
      by (rule round_half_even_mono)
    then have "round_half_even (x / 2 powi ex) \<le> 2 ^ 53"
      by (simp only: round_half_even_of_int)
    then have "(of_int (round_half_even (x / 2 powi ex)) :: rat) \<le> of_int (2 ^ 53)"
      by (simp only: of_int_le_iff)
    then have "round_to_grid x \<le> of_int (2 ^ 53) * 2 powi ex"
      unfolding rx by (simp add: mult_right_mono less_imp_le)
    also have "\<dots> = 2 powi (ex + 53)"
      by (simp add: power_int_add)
    also have "\<dots> \<le> 2 powi (ey + 52)"
      using lt by (intro power_int_increasing) auto
    finally have upper: "round_to_grid x \<le> 2 powi (ey + 52)" .
    have "2 powi (ey + 52) \<le> y" using ilog2_bounds[OF y] ky by simp
    then have "2 powi (ey + 52) / 2 powi ey \<le> y / 2 powi ey"
      by (simp add: divide_right_mono less_imp_le)
    moreover have "(2::rat) powi (ey + 52) / 2 powi ey = of_int (2 ^ 52)"
      by (simp add: power_int_diff [symmetric])
    ultimately have "round_half_even (of_int (2 ^ 52)) \<le> round_half_even (y / 2 powi ey)"
      by (simp only: round_half_even_mono)
    then have "2 ^ 52 \<le> round_half_even (y / 2 powi ey)"
      by (simp only: round_half_even_of_int)
    then have "(of_int (2 ^ 52) :: rat) \<le> of_int (round_half_even (y / 2 powi ey))"
      by (simp only: of_int_le_iff)
    then have "of_int (2 ^ 52) * 2 powi ey \<le> round_to_grid y"
      unfolding ry by (simp add: mult_right_mono less_imp_le)
    moreover have "of_int (2 ^ 52) * 2 powi ey = (2::rat) powi (ey + 52)"
      by (simp add: power_int_add)
    ultimately have "2 powi (ey + 52) \<le> round_to_grid y" by simp
    with upper show ?thesis by (rule order_trans)
  qed
qed

lemma round_to_grid_mono:
  assumes "x \<le> y"
  shows "round_to_grid x \<le> round_to_grid y"
proof -
  consider "0 < x" | "x \<le> 0" "0 \<le> y" | "y < 0" using assms by linarith
  then show ?thesis
  proof cases
    case 1
    then show ?thesis using assms by (rule round_to_grid_mono_pos)
  next
    case 2
    from 2(1) have "0 \<le> round_to_grid (- x)" by (intro round_to_grid_nonneg) simp
    then have "round_to_grid x \<le> 0" by (simp add: round_to_grid_uminus)
    also have "0 \<le> round_to_grid y" using 2(2) by (rule round_to_grid_nonneg)
    finally show ?thesis .
  next
    case 3
    then have "0 < - y" and "- y \<le> - x" using assms by simp_all
    then have "round_to_grid (- y) \<le> round_to_grid (- x)" by (rule round_to_grid_mono_pos)
    then show ?thesis by (simp add: round_to_grid_uminus)
  qed
qed

lemma round_binary64_alt:
  "round_binary64 q =
     (if 2 powi 1024 \<le> round_to_grid q then PosInf
      else if round_to_grid q \<le> - (2 powi 1024) then NegInf
      else Fin (round_to_grid q))"
proof -
  define r where "r = round_to_grid q"
  have p: "(0::rat) < 2 powi 1024" by simp
  consider "r = 0" | "0 < r" | "r < 0" by linarith
  then show ?thesis
  proof cases
    case 1
    then show ?thesis using p by (simp add: round_binary64_def r_def [symmetric] del: powi2_pos)
  next
    case 2
    then have "1024 \<le> ilog2 \<bar>r\<bar> \<longleftrightarrow> 2 powi 1024 \<le> r"
      using ilog2_ge_iff[of r 1024] by simp
    then show ?thesis using 2 p
      by (auto simp add: round_binary64_def r_def [symmetric] Let_def simp del: powi2_pos)
  next
    case 3
    then have "1024 \<le> ilog2 \<bar>r\<bar> \<longleftrightarrow> 2 powi 1024 \<le> - r"
      using ilog2_ge_iff[of "- r" 1024] by simp
    then show ?thesis using 3 p
      by (auto simp add: round_binary64_def r_def [symmetric] Let_def simp del: powi2_pos)
  qed
qed

lemma ulp_exponent_eq:
  assumes "q \<noteq> 0"
    and "\<bar>q\<bar> < 2 ^ 53 * 2 powi e"
    and "2 ^ 52 * 2 powi e \<le> \<bar>q\<bar> \<or> e = - 1074"
    and "- 1074 \<le> e"
  shows "ulp_exponent q = e"
proof -
  have q: "0 < \<bar>q\<bar>" using assms(1) by simp
  have up: "\<bar>q\<bar> < 2 powi (e + 52 + 1)"
    using assms(2) by (simp add: power_int_add mult.commute)
  show ?thesis
  proof (cases "2 ^ 52 * 2 powi e \<le> \<bar>q\<bar>")
    case True
    then have "2 powi (e + 52) \<le> \<bar>q\<bar>" by (simp add: power_int_add mult.commute)
    then have "ilog2 \<bar>q\<bar> = e + 52" using up by (rule ilog2_unique)
    then show ?thesis using assms(4) by (simp add: ulp_exponent_def)
  next
    case False
    with assms(3) have e: "e = - 1074" by simp
    have "\<not> e + 52 + 1 \<le> ilog2 \<bar>q\<bar>"
      using up by (simp add: ilog2_ge_iff[OF q])
    then show ?thesis using e by (simp add: ulp_exponent_def)
  qed
qed

lemma round_binary64_eq:
  assumes "round_half_even (q / 2 powi e) = n"
    and "\<bar>q\<bar> < 2 ^ 53 * 2 powi e"
    and "2 ^ 52 * 2 powi e \<le> \<bar>q\<bar> \<or> e = - 1074"
    and "- 1074 \<le> e" and "e \<le> 970"
    and "q \<noteq> 0"
  shows "round_binary64 q = Fin (of_int n * 2 powi e)"
proof -
  have ue: "ulp_exponent q = e"
    using assms(6,2,3,4) by (rule ulp_exponent_eq)
  have r: "round_to_grid q = of_int n * 2 powi e"
    using assms(6,1) by (simp add: round_to_grid_def ue)
  have "\<bar>q / 2 powi e\<bar> \<le> of_int (2 ^ 53)"
    using assms(2) by (simp add: pos_divide_le_eq abs_mult less_imp_le)
  then have "\<bar>n\<bar> \<le> 2 ^ 53"
    unfolding assms(1) [symmetric] by (rule round_half_even_abs_le)
  then have "\<bar>of_int n :: rat\<bar> \<le> of_int (2 ^ 53)"
    by (simp only: of_int_abs [symmetric] of_int_le_iff)
  then have "\<bar>of_int n * 2 powi e :: rat\<bar> \<le> of_int (2 ^ 53) * 2 powi e"
    by (simp add: abs_mult mult_right_mono less_imp_le)
  also have "\<dots> = 2 powi (e + 53)" by (simp add: power_int_add mult.commute)
  also have "\<dots> < 2 powi 1024" using assms(5) by (intro power_int_strict_increasing) auto
  finally have "\<bar>round_to_grid q\<bar> < 2 powi 1024" unfolding r .
  then show ?thesis
    by (simp add: round_binary64_alt r abs_less_iff not_le)
qed

subsection \<open>Order and monotonicity of the operations\<close>

lemma num_le_refl: "x \<noteq> NaN \<Longrightarrow> num_le x x"
  by (cases x) simp_all

lemma num_le_trans: "num_le x y \<Longrightarrow> num_le y z \<Longrightarrow> num_le x z"
  by (cases x; cases y; cases z) simp_all

lemma num_le_not_NaN: "num_le x y \<Longrightarrow> x \<noteq> NaN \<and> y \<noteq> NaN"
  by (cases x; cases y) simp_all

lemma num_le_PosInf [simp]: "num_le x PosInf \<longleftrightarrow> x \<noteq> NaN"
  by (cases x) simp_all

lemma num_le_NegInf [simp]: "num_le NegInf x \<longleftrightarrow> x \<noteq> NaN"
  by (cases x) simp_all

lemma round_binary64_mono:
  assumes "x \<le> y"
  shows "num_le (round_binary64 x) (round_binary64 y)"
  using round_to_grid_mono[OF assms] by (auto simp: round_binary64_alt)

lemma round_binary64_not_NaN [simp]: "round_binary64 q \<noteq> NaN"
  by (simp add: round_binary64_alt)

lemma round_binary64_0 [simp]: "round_binary64 0 = Fin 0"
  by (simp add: round_binary64_def round_to_grid_def)

lemma js_sub_mono_left:
  "num_le x y \<Longrightarrow> num_le (js_sub x (Fin k)) (js_sub y (Fin k))"
  by (cases x; cases y) (simp_all add: round_binary64_mono)

lemma js_sub_anti_right:
  "num_le x y \<Longrightarrow> num_le (js_sub (Fin k) y) (js_sub (Fin k) x)"
  by (cases x; cases y) (simp_all add: round_binary64_mono)

lemma js_div_mono_left:
  "0 < k \<Longrightarrow> num_le x y \<Longrightarrow> num_le (js_div x (Fin k)) (js_div y (Fin k))"
  by (cases x; cases y) (simp_all add: round_binary64_mono divide_right_mono)

lemma js_mul_mono_left:
  "0 < k \<Longrightarrow> num_le x y \<Longrightarrow> num_le (js_mul x (Fin k)) (js_mul y (Fin k))"
  by (cases x; cases y) (simp_all add: round_binary64_mono mult_right_mono)

lemma js_mul_mono_right:
  "0 < k \<Longrightarrow> num_le x y \<Longrightarrow> num_le (js_mul (Fin k) x) (js_mul (Fin k) y)"
  by (cases x; cases y) (simp_all add: round_binary64_mono mult_left_mono)

lemma Math_max_mono_right:
  "r \<noteq> NaN \<Longrightarrow> num_le x y \<Longrightarrow> num_le (Math_max r x) (Math_max r y)"
  by (cases r; cases x; cases y) (auto simp: Math_max_def)

lemma Math_max_ge_left:
  "r \<noteq> NaN \<Longrightarrow> x \<noteq> NaN \<Longrightarrow> num_le r (Math_max r x)"
  by (cases r; cases x) (auto simp: Math_max_def)

lemma Math_max_le:
  "num_le r z \<Longrightarrow> num_le x z \<Longrightarrow> num_le (Math_max r x) z"
  by (cases r; cases x; cases z) (auto simp: Math_max_def)

lemma Math_floor_mono:
  "num_le x y \<Longrightarrow> num_le (Math_floor x) (Math_floor y)"
  by (cases x; cases y) (simp_all add: floor_mono)

lemma Math_floor_le: "x \<noteq> NaN \<Longrightarrow> num_le (Math_floor x) x"
  by (cases x) simp_all

subsection \<open>Values of literals and of the examples\<close>

lemma lit_0_6: "round_binary64 (6 / 10) = Fin (5404319552844595 / 9007199254740992)"
  using round_binary64_eq [OF round_half_even_nearest, of "6 / 10" "- 53" 5404319552844595]
  by simp

lemma lit_900: "round_binary64 900 = Fin 900"
  using round_binary64_eq [OF round_half_even_nearest, of 900 "- 43" "900 * 2 ^ 43"]
  by simp

lemma lit_1: "round_binary64 1 = Fin 1"
  using round_binary64_eq [OF round_half_even_nearest, of 1 "- 52" "2 ^ 52"]
  by simp

lemma lit_0_4: "round_binary64 (4 / 10) = Fin (3602879701896397 / 9007199254740992)"
  using round_binary64_eq [OF round_half_even_nearest, of "4 / 10" "- 54" 7205759403792794]
  by simp

lemma lit_25_6: "round_binary64 (256 / 10) = Fin (3602879701896397 / 140737488355328)"
  using round_binary64_eq [OF round_half_even_nearest, of "256 / 10" "- 48" 7205759403792794]
  by simp

lemma round_binary64_40: "round_binary64 40 = Fin 40"
  using round_binary64_eq [OF round_half_even_nearest, of 40 "- 47" "40 * 2 ^ 47"]
  by simp

lemma thumbnail_64:
  "js_mul (Fin 64) (round_binary64 (4 / 10)) = Fin (3602879701896397 / 140737488355328)"
proof -
  have "round_binary64 (64 * (3602879701896397 / 9007199254740992))
        = Fin (3602879701896397 / 140737488355328)"
    using round_binary64_eq [OF round_half_even_nearest,
        of "64 * (3602879701896397 / 9007199254740992)" "- 48" 7205759403792794]
    by simp
  then show ?thesis unfolding lit_0_4 by simp
qed

lemma thumbnail_24:
  "js_mul (Fin 24) (round_binary64 (4 / 10)) = Fin (1351079888211149 / 140737488355328)"
proof -
  have "round_binary64 (24 * (3602879701896397 / 9007199254740992))
        = Fin (1351079888211149 / 140737488355328)"
    using round_binary64_eq [OF round_half_even_tie,
        of "24 * (3602879701896397 / 9007199254740992)" "- 49" 5404319552844596]
    by simp
  then show ?thesis unfolding lit_0_4 by simp
qed

lemma full_size_328_40_20:
  "Math_floor (js_mul (Fin 40) (spec_scale 328 (Fin 40) (Fin 20))) = Fin 39"
proof -
  have r1: "round_binary64 28 = Fin 28"
    using round_binary64_eq [OF round_half_even_nearest, of "28" "- 48" 7881299347898368]
    by simp
  have r2: "round_binary64 900 = Fin 900"
    using round_binary64_eq [OF round_half_even_nearest, of "900" "- 43" 7916483719987200]
    by simp
  have r3: "round_binary64 (28 / 900) = Fin (4483583629026627 / 144115188075855872)"
    using round_binary64_eq [OF round_half_even_nearest, of "(28 / 900)" "- 58" 8967167258053254]
    by simp
  have r4: "round_binary64 (6 / 10) = Fin (5404319552844595 / 9007199254740992)"
    using round_binary64_eq [OF round_half_even_nearest, of "(6 / 10)" "- 53" 5404319552844595]
    by simp
  have r5: "round_binary64 ((4483583629026627 / 144115188075855872) * (5404319552844595 / 9007199254740992)) = Fin (336268772176997 / 18014398509481984)"
    using round_binary64_eq [OF round_half_even_nearest, of "((4483583629026627 / 144115188075855872) * (5404319552844595 / 9007199254740992))" "- 58" 5380300354831952]
    by simp
  have r6: "round_binary64 (1 - (336268772176997 / 18014398509481984)) = Fin (4419532434326247 / 4503599627370496)"
    using round_binary64_eq [OF round_half_even_tie, of "(1 - (336268772176997 / 18014398509481984))" "- 53" 8839064868652494]
    by simp
  have r7: "round_binary64 (20 / 40) = Fin (1 / 2)"
    using round_binary64_eq [OF round_half_even_nearest, of "(20 / 40)" "- 53" 4503599627370496]
    by simp
  have r8: "round_binary64 (40 * (4419532434326247 / 4503599627370496)) = Fin (5524415542907809 / 140737488355328)"
    using round_binary64_eq [OF round_half_even_nearest, of "(40 * (4419532434326247 / 4503599627370496))" "- 47" 5524415542907809]
    by simp
  have a: "js_sub (num 328) (num 300) = Fin 28" using r1 by (simp add: num_def)
  have b: "js_sub (num 1200) (num 300) = Fin 900" using r2 by (simp add: num_def)
  have c: "js_div (Fin 28) (Fin 900) = Fin (4483583629026627 / 144115188075855872)"
    using r3 by simp
  have d: "js_mul (Fin (4483583629026627 / 144115188075855872)) (Fin (5404319552844595 / 9007199254740992))
           = Fin (336268772176997 / 18014398509481984)"
    using r5 by simp
  have e: "js_sub (num 1) (Fin (336268772176997 / 18014398509481984))
           = Fin (4419532434326247 / 4503599627370496)"
    using r6 by (simp add: num_def)
  have f: "js_div (Fin 20) (Fin 40) = Fin (1 / 2)" using r7 by simp
  have g: "Math_max (Fin (1 / 2)) (Fin (4419532434326247 / 4503599627370496))
           = Fin (4419532434326247 / 4503599627370496)"
    by (simp add: Math_max_def)
  have h: "js_mul (Fin 40) (Fin (4419532434326247 / 4503599627370496))
           = Fin (5524415542907809 / 140737488355328)"
    using r8 by simp
  have "spec_scale 328 (Fin 40) (Fin 20) = Fin (4419532434326247 / 4503599627370496)"
    unfolding spec_scale_def shrink_def a b c r4 d e f g ..
  then have "Math_floor (js_mul (Fin 40) (spec_scale 328 (Fin 40) (Fin 20)))
             = Math_floor (Fin (5524415542907809 / 140737488355328))"
    by (simp only: h)
  also have "\<dots> = Fin 39"
  proof -
    have "\<lfloor>5524415542907809 / 140737488355328 :: rat\<rfloor> = 39"
      by (rule floor_unique) simp_all
    then show ?thesis by simp
  qed
  finally show ?thesis .
qed

lemma round_binary64_22: "round_binary64 22 = Fin 22"
  using round_binary64_eq [OF round_half_even_nearest, of 22 "- 48" 6192449487634432]
  by simp

lemma left_to_right_22_15:
  "Math_floor (js_div (js_mul (Fin 22) (Fin 15)) (Fin 22)) = Fin 15"
proof -
  have a: "round_binary64 (22 * 15) = Fin 330"
    using round_binary64_eq [OF round_half_even_nearest, of "22 * 15" "- 44" 5805421394657280]
    by simp
  have b: "round_binary64 (330 / 22) = Fin 15"
    using round_binary64_eq [OF round_half_even_nearest, of "330 / 22" "- 49" 8444249301319680]
    by simp
  have "js_mul (Fin 22) (Fin 15) = Fin 330" using a by simp
  moreover have "js_div (Fin 330) (Fin 22) = Fin 15" using b by simp
  ultimately show ?thesis by simp
qed

lemma full_size_820_22_15:
  "Math_floor (js_mul (Fin 22) (spec_scale 820 (Fin 22) (Fin 15))) = Fin 14"
proof -
  have r1: "round_binary64 520 = Fin 520"
    using round_binary64_eq [OF round_half_even_nearest, of "520" "- 43" 4573968371548160]
    by simp
  have r2: "round_binary64 900 = Fin 900"
    using round_binary64_eq [OF round_half_even_nearest, of "900" "- 43" 7916483719987200]
    by simp
  have r3: "round_binary64 (520 / 900) = Fin (2602079784702953 / 4503599627370496)"
    using round_binary64_eq [OF round_half_even_nearest, of "(520 / 900)" "- 53" 5204159569405906]
    by simp
  have r4: "round_binary64 (6 / 10) = Fin (5404319552844595 / 9007199254740992)"
    using round_binary64_eq [OF round_half_even_nearest, of "(6 / 10)" "- 53" 5404319552844595]
    by simp
  have r5: "round_binary64 ((2602079784702953 / 4503599627370496) * (5404319552844595 / 9007199254740992)) = Fin (6244991483287087 / 18014398509481984)"
    using round_binary64_eq [OF round_half_even_nearest, of "((2602079784702953 / 4503599627370496) * (5404319552844595 / 9007199254740992))" "- 54" 6244991483287087]
    by simp
  have r6: "round_binary64 (1 - (6244991483287087 / 18014398509481984)) = Fin (735587939137181 / 1125899906842624)"
    using round_binary64_eq [OF round_half_even_tie, of "(1 - (6244991483287087 / 18014398509481984))" "- 53" 5884703513097448]
    by simp
  have r7: "round_binary64 (15 / 22) = Fin (6141272219141585 / 9007199254740992)"
    using round_binary64_eq [OF round_half_even_nearest, of "(15 / 22)" "- 53" 6141272219141585]
    by simp
  have r8: "round_binary64 (22 * (6141272219141585 / 9007199254740992)) = Fin (8444249301319679 / 562949953421312)"
    using round_binary64_eq [OF round_half_even_nearest, of "(22 * (6141272219141585 / 9007199254740992))" "- 49" 8444249301319679]
    by simp
  have a: "js_sub (num 820) (num 300) = Fin 520" using r1 by (simp add: num_def)
  have b: "js_sub (num 1200) (num 300) = Fin 900" using r2 by (simp add: num_def)
  have c: "js_div (Fin 520) (Fin 900) = Fin (2602079784702953 / 4503599627370496)"
    using r3 by simp
  have d: "js_mul (Fin (2602079784702953 / 4503599627370496)) (Fin (5404319552844595 / 9007199254740992))
           = Fin (6244991483287087 / 18014398509481984)"
    using r5 by simp
  have e: "js_sub (num 1) (Fin (6244991483287087 / 18014398509481984))
           = Fin (735587939137181 / 1125899906842624)"
    using r6 by (simp add: num_def)
  have f: "js_div (Fin 15) (Fin 22) = Fin (6141272219141585 / 9007199254740992)"
    using r7 by simp
  have g: "Math_max (Fin (6141272219141585 / 9007199254740992)) (Fin (735587939137181 / 1125899906842624))
           = Fin (6141272219141585 / 9007199254740992)"
    by (simp add: Math_max_def)
  have h: "js_mul (Fin 22) (Fin (6141272219141585 / 9007199254740992))
           = Fin (8444249301319679 / 562949953421312)"
    using r8 by simp
  have "spec_scale 820 (Fin 22) (Fin 15) = Fin (6141272219141585 / 9007199254740992)"
    unfolding spec_scale_def shrink_def a b c r4 d e f g ..
  then have "Math_floor (js_mul (Fin 22) (spec_scale 820 (Fin 22) (Fin 15)))
             = Math_floor (Fin (8444249301319679 / 562949953421312))"
    by (simp only: h)
  also have "\<dots> = Fin 14"
  proof -
    have "\<lfloor>8444249301319679 / 562949953421312 :: rat\<rfloor> = 14"
      by (rule floor_unique) simp_all
    then show ?thesis by simp
  qed
  finally show ?thesis .
qed

section \<open>The font size estimator: verified properties\<close>

lemma getDynamicFontSize_full:
  "getDynamicFontSize False contents baseSize minSize =
     (if complexity_of contents \<le> 300 then Px baseSize
      else Px (Math_floor (js_mul baseSize (spec_scale (complexity_of contents) baseSize minSize))))"
  by (simp add: getDynamicFontSize_def complexity_of_def spec_scale_def shrink_def Let_def)

lemma shrink_antimono:
  assumes "c \<le> c'"
  shows "num_le (shrink c') (shrink c)"
proof -
  have "num_le (num c) (num c')" using assms by (simp add: num_def)
  then have "num_le (js_sub (num c) (num 300)) (js_sub (num c') (num 300))"
    unfolding num_def[of 300] by (rule js_sub_mono_left)
  then have "num_le (js_div (js_sub (num c) (num 300)) (Fin 900))
                    (js_div (js_sub (num c') (num 300)) (Fin 900))"
    by (intro js_div_mono_left) simp_all
  then have "num_le (js_mul (js_div (js_sub (num c) (num 300)) (Fin 900)) (round_binary64 (6 / 10)))
                    (js_mul (js_div (js_sub (num c') (num 300)) (Fin 900)) (round_binary64 (6 / 10)))"
    unfolding lit_0_6 by (intro js_mul_mono_left) simp_all
  then have "num_le (js_sub (Fin 1) (js_mul (js_div (js_sub (num c') (num 300)) (Fin 900)) (round_binary64 (6 / 10))))
                    (js_sub (Fin 1) (js_mul (js_div (js_sub (num c) (num 300)) (Fin 900)) (round_binary64 (6 / 10))))"
    by (rule js_sub_anti_right)
  moreover have "js_sub (num 1200) (num 300) = Fin 900" "num 1 = Fin 1"
    by (simp_all add: num_def lit_900)
  ultimately show ?thesis by (simp add: shrink_def)
qed

lemma shrink_le_1:
  assumes "300 \<le> c"
  shows "num_le (shrink c) (Fin 1)"
proof -
  have "shrink 300 = Fin 1"
    unfolding shrink_def num_def lit_0_6 by (simp add: lit_900 lit_1)
  with shrink_antimono[OF assms] show ?thesis by simp
qed

lemma js_div_le_1:
  assumes "0 < m" and "m \<le> b"
  shows "num_le (js_div (Fin m) (Fin b)) (Fin 1)"
proof -
  have "m / b \<le> 1" using assms by simp
  then have "num_le (round_binary64 (m / b)) (round_binary64 1)" by (rule round_binary64_mono)
  then show ?thesis using assms by (simp add: lit_1)
qed

lemma js_div_not_NaN:
  assumes "0 < m" and "m \<le> b"
  shows "js_div (Fin m) (Fin b) \<noteq> NaN"
  using assms by simp

lemma spec_scale_antimono:
  assumes "0 < m" and "m \<le> b" and "c \<le> c'"
  shows "num_le (spec_scale c' (Fin b) (Fin m)) (spec_scale c (Fin b) (Fin m))"
  unfolding spec_scale_def
  using js_div_not_NaN[OF assms(1,2)] shrink_antimono[OF assms(3)]
  by (rule Math_max_mono_right)

lemma spec_scale_le_1:
  assumes "0 < m" and "m \<le> b" and "300 \<le> c"
  shows "num_le (spec_scale c (Fin b) (Fin m)) (Fin 1)"
  unfolding spec_scale_def
  using js_div_le_1[OF assms(1,2)] shrink_le_1[OF assms(3)]
  by (rule Math_max_le)

lemma spec_scale_ge_ratio:
  assumes "0 < m" and "m \<le> b"
  shows "num_le (js_div (Fin m) (Fin b)) (spec_scale c (Fin b) (Fin m))"
  unfolding spec_scale_def
  using js_div_not_NaN[OF assms(1,2)] num_le_not_NaN[OF shrink_antimono[of c c]]
  by (intro Math_max_ge_left) simp_all

lemma scaled_le_base:
  assumes "is_double (Fin b)" and "0 < b" and "num_le s (Fin 1)"
  shows "num_le (Math_floor (js_mul (Fin b) s)) (Fin b)"
proof -
  have "num_le (js_mul (Fin b) s) (js_mul (Fin b) (Fin 1))"
    using assms(2,3) by (rule js_mul_mono_right)
  then have *: "num_le (js_mul (Fin b) s) (Fin b)" using assms(1) by simp
  then have "num_le (Math_floor (js_mul (Fin b) s)) (js_mul (Fin b) s)"
    by (intro Math_floor_le) (auto dest: num_le_not_NaN)
  then show ?thesis using * by (rule num_le_trans)
qed

lemma complexity_eight: "complexity_of eight_lines = 328"
  by (simp add: complexity_of_def js_def eight_lines_def)

lemma complexity_one_long_line: "complexity_of one_long_line = 820"
  by (simp add: complexity_of_def one_long_line_def)

lemma index0_Cons: "index0 (x # xs) = Some x"
  by (simp add: index0_def)

lemma index0_eight: "index0 eight_lines = Some (js ''a'')"
  by (simp add: index0_Cons eight_lines_def)

lemma font_one: "getDynamicFontSize False [js ''a''] (num 40) (num 20) = Px (Fin 40)"
  by (simp add: getDynamicFontSize_full complexity_of_def js_def num_def)

lemma font_many: "getDynamicFontSize False eight_lines (num 40) (num 20) = Px (Fin 39)"
  using full_size_328_40_20
  by (simp add: getDynamicFontSize_full complexity_eight num_def)

text \<open>
  Claim C7. Whenever the complexity of the content (total character count plus 40 times
  the number of lines) is at most 300, the full-mode estimator returns \<open>baseSize\<close>
  unscaled; in particular the content \<open>["short"]\<close> with base size 64 and minimum size 32
  gives 64.
\<close>

theorem getDynamicFontSize_easy_unscaled:
  "complexity_of contents \<le> 300 \<Longrightarrow>
   getDynamicFontSize False contents baseSize minSize = Px baseSize"
  by (simp add: getDynamicFontSize_full)

theorem getDynamicFontSize_easy_unscaled_witness:
  "complexity_of [js ''short''] \<le> 300 \<and>
   getDynamicFontSize False [js ''short''] (Fin 64) (Fin 32) = Px (Fin 64)"
proof -
  have h: "complexity_of [js ''short''] \<le> 300"
    by (simp add: complexity_of_def js_def)
  from getDynamicFontSize_easy_unscaled [OF h, of "Fin 64" "Fin 32"] h show ?thesis
    by simp
qed

text \<open>
  Claim C1. Whenever the complexity of the content exceeds 300, the full-mode estimator
  returns \<open>floor(baseSize * scale)\<close> for the scale factor of the specification,
  \<open>scale = max(minSize/baseSize, 1 - ((complexity - 300) / (1200 - 300)) * 0.6)\<close>: the
  linear shrink factor, floored at the ratio of the minimum size to the base size.
\<close>

theorem getDynamicFontSize_hard_formula:
  "300 < complexity_of contents \<Longrightarrow>
   getDynamicFontSize False contents baseSize minSize =
     Px (Math_floor (js_mul baseSize (spec_scale (complexity_of contents) baseSize minSize)))"
  by (simp add: getDynamicFontSize_full)

theorem getDynamicFontSize_hard_formula_witness:
  "300 < complexity_of eight_lines \<and>
   getDynamicFontSize False eight_lines (Fin 40) (Fin 20) = Px (Fin 39)"
proof -
  have h: "300 < complexity_of eight_lines"
    by (simp add: complexity_eight)
  from getDynamicFontSize_hard_formula [OF h, of "Fin 40" "Fin 20"] h show ?thesis
    by (simp add: complexity_eight full_size_328_40_20)
qed

text \<open>
  Claim C2, as stated: for a positive base size and a minimum size \<open>m\<close> with
  \<open>0 < m \<le> baseSize\<close> the full-mode result is non-increasing in the character count and
  never below \<open>floor(baseSize * minSize/baseSize)\<close>. That bound is the floor of the minimum
  size, whether it is read exactly or evaluated from left to right in binary64, and the
  code can return less: it rounds the quotient \<open>minSize/baseSize\<close> first, and for base
  size 22 and minimum size 15 the product of 22 and the rounded quotient is just below
  15, so that one line of 780 characters (complexity 820) gets 14 pixels.
\<close>

theorem getDynamicFontSize_below_minSize:
  "is_double (Fin 22) \<and> (0::rat) < 15 \<and> (15::rat) \<le> 22 \<and>
   complexity_of one_long_line = 820 \<and>
   getDynamicFontSize False one_long_line (Fin 22) (Fin 15) = Px (Fin 14) \<and>
   Math_floor (js_div (js_mul (Fin 22) (Fin 15)) (Fin 22)) = Fin 15 \<and>
   \<lfloor>(22 * 15 / 22 :: rat)\<rfloor> = 15 \<and>
   \<not> px_le (Px (Fin 15)) (getDynamicFontSize False one_long_line (Fin 22) (Fin 15))"
proof -
  have r: "getDynamicFontSize False one_long_line (Fin 22) (Fin 15) = Px (Fin 14)"
    by (simp add: getDynamicFontSize_full complexity_one_long_line full_size_820_22_15)
  have d: "is_double (Fin 22)" by (simp add: round_binary64_22)
  have m: "(0::rat) < 15" "(15::rat) \<le> 22" by simp_all
  have e: "\<lfloor>(22 * 15 / 22 :: rat)\<rfloor> = 15" by simp
  have n: "\<not> px_le (Px (Fin 15)) (getDynamicFontSize False one_long_line (Fin 22) (Fin 15))"
    unfolding r by simp
  show ?thesis
    by (intro conjI d m complexity_one_long_line r left_to_right_22_15 e n)
qed

text \<open>
  Claim C2, amended. For a base size \<open>b\<close> and a minimum size \<open>m\<close> with \<open>0 < m \<le> b\<close> and
  two content lists with the same number of lines, the full-mode result for the list with
  more characters is not larger than the result for the other one, and the result is
  never below \<open>floor(b * (m / b))\<close> computed as the code computes it, in binary64 with the
  quotient \<open>m / b\<close> rounded before the multiplication. This bound can be one below the
  floor of the minimum size.
\<close>

theorem getDynamicFontSize_monotone_and_floored:
  assumes "is_double (Fin b)" and "0 < m" and "m \<le> b"
    and "length content1 = length content2"
    and "length (concat content1) \<le> length (concat content2)"
  shows "px_le (getDynamicFontSize False content2 (Fin b) (Fin m))
               (getDynamicFontSize False content1 (Fin b) (Fin m)) \<and>
         px_le (Px (Math_floor (js_mul (Fin b) (js_div (Fin m) (Fin b)))))
               (getDynamicFontSize False content1 (Fin b) (Fin m))"
proof -
  have b: "0 < b" using assms(2,3) by simp
  have c: "complexity_of content1 \<le> complexity_of content2"
    using assms(4,5) by (simp add: complexity_of_def)
  have floor_ratio: "num_le (Math_floor (js_mul (Fin b) (js_div (Fin m) (Fin b)))) (Fin b)"
    using assms(1) b js_div_le_1[OF assms(2,3)] by (rule scaled_le_base)
  have mono: "px_le (getDynamicFontSize False content2 (Fin b) (Fin m))
               (getDynamicFontSize False content1 (Fin b) (Fin m))"
  proof (cases "complexity_of content1 \<le> 300")
    case easy1: True
    show ?thesis
    proof (cases "complexity_of content2 \<le> 300")
      case True
      with easy1 show ?thesis by (simp add: getDynamicFontSize_full)
    next
      case False
      then have "num_le (spec_scale (complexity_of content2) (Fin b) (Fin m)) (Fin 1)"
        by (intro spec_scale_le_1 assms) simp
      with assms(1) b have "num_le (Math_floor (js_mul (Fin b)
          (spec_scale (complexity_of content2) (Fin b) (Fin m)))) (Fin b)"
        by (rule scaled_le_base)
      with easy1 False show ?thesis by (simp add: getDynamicFontSize_full)
    qed
  next
    case False
    with c have hard2: "\<not> complexity_of content2 \<le> 300" by simp
    have "num_le (spec_scale (complexity_of content2) (Fin b) (Fin m))
                 (spec_scale (complexity_of content1) (Fin b) (Fin m))"
      using assms(2,3) c by (rule spec_scale_antimono)
    with b have "num_le (js_mul (Fin b) (spec_scale (complexity_of content2) (Fin b) (Fin m)))
                 (js_mul (Fin b) (spec_scale (complexity_of content1) (Fin b) (Fin m)))"
      by (rule js_mul_mono_right)
    then have "num_le (Math_floor (js_mul (Fin b) (spec_scale (complexity_of content2) (Fin b) (Fin m))))
                 (Math_floor (js_mul (Fin b) (spec_scale (complexity_of content1) (Fin b) (Fin m))))"
      by (rule Math_floor_mono)
    with False hard2 show ?thesis by (simp add: getDynamicFontSize_full)
  qed
  have bound: "px_le (Px (Math_floor (js_mul (Fin b) (js_div (Fin m) (Fin b)))))
               (getDynamicFontSize False content1 (Fin b) (Fin m))"
  proof (cases "complexity_of content1 \<le> 300")
    case True
    with floor_ratio show ?thesis by (simp add: getDynamicFontSize_full)
  next
    case False
    have "num_le (js_div (Fin m) (Fin b)) (spec_scale (complexity_of content1) (Fin b) (Fin m))"
      using assms(2,3) by (rule spec_scale_ge_ratio)
    with b have "num_le (js_mul (Fin b) (js_div (Fin m) (Fin b)))
                 (js_mul (Fin b) (spec_scale (complexity_of content1) (Fin b) (Fin m)))"
      by (rule js_mul_mono_right)
    then have "num_le (Math_floor (js_mul (Fin b) (js_div (Fin m) (Fin b))))
                 (Math_floor (js_mul (Fin b) (spec_scale (complexity_of content1) (Fin b) (Fin m))))"
      by (rule Math_floor_mono)
    with False show ?thesis by (simp add: getDynamicFontSize_full)
  qed
  from mono bound show ?thesis ..
qed

theorem getDynamicFontSize_monotone_and_floored_witness:
  "is_double (Fin 40) \<and> (0::rat) < 20 \<and> (20::rat) \<le> 40 \<and>
   length eight_lines = length eight_lines_longer \<and>
   length (concat eight_lines) \<le> length (concat eight_lines_longer) \<and>
   px_le (getDynamicFontSize False eight_lines_longer (Fin 40) (Fin 20))
         (getDynamicFontSize False eight_lines (Fin 40) (Fin 20)) \<and>
   px_le (Px (Math_floor (js_mul (Fin 40) (js_div (Fin 20) (Fin 40)))))
         (getDynamicFontSize False eight_lines (Fin 40) (Fin 20))"
proof -
  have d: "is_double (Fin 40)" by (simp add: round_binary64_40)
  have m: "(0::rat) < 20" "(20::rat) \<le> 40" by simp_all
  have l: "length eight_lines = length eight_lines_longer"
    by (simp add: eight_lines_def eight_lines_longer_def)
  have c: "length (concat eight_lines) \<le> length (concat eight_lines_longer)"
    by (simp add: js_def eight_lines_def eight_lines_longer_def)
  from getDynamicFontSize_monotone_and_floored [OF d m l c] d m l c show ?thesis
    by blast
qed

text \<open>
  Claim C4, as stated: in thumbnail mode the estimator floors \<open>baseSize * 0.4\<close>, so that
  base size 64 gives 25. The code does not floor in thumbnail mode: it returns the product
  itself, which for base size 64 is the binary64 value written 25.6, a little above
  \<open>128 / 5\<close>.
\<close>

theorem getDynamicFontSize_thumbnail_not_floored:
  "getDynamicFontSize True [] (Fin 64) (Fin 32) = Px (Fin (3602879701896397 / 140737488355328)) \<and>
   getDynamicFontSize True [] (Fin 64) (Fin 32) \<noteq> Px (Fin 25)"
proof -
  have "getDynamicFontSize True [] (Fin 64) (Fin 32) = Px (Fin (3602879701896397 / 140737488355328))"
    unfolding getDynamicFontSize_def thumbnail_64 by simp
  then show ?thesis by simp
qed

text \<open>
  Claim C4, amended. In thumbnail mode the estimator returns \<open>baseSize * 0.4\<close> as it is,
  without flooring and whatever the content: for base size 64 and minimum size 32 the
  result is the binary64 value nearest to 25.6 for every content list.
\<close>

theorem getDynamicFontSize_thumbnail_unfloored:
  "getDynamicFontSize True contents (Fin 64) (Fin 32) = Px (round_binary64 (256 / 10)) \<and>
   getDynamicFontSize True contents baseSize minSize = Px (js_mul baseSize (round_binary64 (4 / 10)))"
  unfolding lit_25_6 getDynamicFontSize_def thumbnail_64 by simp

text \<open>
  Claim C10. In thumbnail mode the result is \<open>baseSize * 0.4\<close> for every content list and
  every minimum size, and the minimum size does not clamp it: for base size 24 and minimum
  size 12 the result is the product of 24 and the binary64 value of 0.4 (the number
  printed as 9.600000000000001), which is below 12.
\<close>

theorem getDynamicFontSize_thumbnail_ignores_minSize:
  "getDynamicFontSize True contents baseSize minSize = Px (js_mul baseSize (round_binary64 (4 / 10))) \<and>
   getDynamicFontSize True contents baseSize minSize = getDynamicFontSize True [] baseSize (Fin 0) \<and>
   getDynamicFontSize True contents (Fin 24) (Fin 12) = Px (Fin (1351079888211149 / 140737488355328)) \<and>
   \<not> px_le (Px (Fin 12)) (getDynamicFontSize True contents (Fin 24) (Fin 12))"
  unfolding getDynamicFontSize_def thumbnail_24 by simp

section \<open>Segmentation: verified properties\<close>

text \<open>\<^verbatim>\<open>SmartText\<close> renders the segments of \<open>segment\<close>, one element for each.\<close>

lemma map_enumerate_map:
  "map (\<lambda>(i, s). g i s) (enumerate n (map f xs)) = map (\<lambda>(i, x). g i (f x)) (enumerate n xs)"
  by (induction xs arbitrary: n) simp_all

lemma SmartText_renders_segments:
  "SmartText text =
     (if text = [] then Null
      else if startsWith text [dollar, dollar] \<and> endsWith text [dollar, dollar]
        then (case segment text of [BlockMath math] \<Rightarrow> block_math [] math | _ \<Rightarrow> Null)
      else Element ''span'' [ClassName ''break-words whitespace-pre-wrap'']
             (map (\<lambda>(i, s). render_segment i s) (enumerate 0 (segment text))))"
  by (simp add: SmartText_def segment_def Let_def map_enumerate_map)

lemma js_slice_2_m2: "js_slice s 2 (- 2) = take (length s - 4) (drop 2 s)"
  by (auto simp: js_slice_def Let_def max_def min_def intro: arg_cong2[where f = take])

lemma js_slice_1_m1: "js_slice s 1 (- 1) = take (length s - 2) (drop 1 s)"
  by (auto simp: js_slice_def Let_def max_def min_def intro: arg_cong2[where f = take])

lemma startsWith_Nil [simp]: "startsWith [] p \<longleftrightarrow> p = []"
  by (auto simp: startsWith_def)

lemma startsWith_Cons1 [simp]: "startsWith (c # cs) [d] \<longleftrightarrow> c = d"
  by (simp add: startsWith_def)

lemma startsWith_Cons2 [simp]: "startsWith (c # cs) [d, d'] \<longleftrightarrow> c = d \<and> startsWith cs [d']"
  by (cases cs) (simp_all add: startsWith_def)

lemma endsWith_append [simp]: "endsWith (xs @ p) p"
  by (simp add: endsWith_def)

lemma wrapped_restore:
  assumes "startsWith s [d, d]" and "endsWith s [d, d]" and "4 \<le> length s"
  shows "[d, d] @ take (length s - 4) (drop 2 s) @ [d, d] = s"
proof -
  define n where "n = length s - 4"
  have a: "take 2 s = [d, d]" using assms(1) by (simp add: startsWith_def numeral_2_eq_2)
  have b: "drop (length s - 2) s = [d, d]" using assms(2) by (simp add: endsWith_def numeral_2_eq_2)
  have n: "n + 2 = length s - 2" using assms(3) by (simp add: n_def)
  have "drop n (drop 2 s) = drop (n + 2) s" by (rule drop_drop)
  then have c: "drop n (drop 2 s) = [d, d]" by (simp only: n b)
  have "s = take 2 s @ (take n (drop 2 s) @ drop n (drop 2 s))"
    by (simp only: append_take_drop_id)
  then have "s = [d, d] @ (take n (drop 2 s) @ [d, d])" by (simp only: a c)
  then show ?thesis unfolding n_def by (rule sym)
qed

text \<open>
  Claim C5, as stated: a text whose trimmed form is wrapped by \<^verbatim>\<open>$$\<close> at both ends,
  white space around it included, gives exactly one block-math segment. The code tests the
  text itself, not its trimmed form: with a leading blank the text goes through the split
  and gives three segments.
\<close>

theorem segment_untrimmed_three_segments:
  "startsWith (trim (js '' $$x^2$$'')) [dollar, dollar] \<and>
   endsWith (trim (js '' $$x^2$$'')) [dollar, dollar] \<and>
   segment (js '' $$x^2$$'') = [PlainText (js '' ''), BlockMath (js ''x^2''), PlainText []] \<and>
   length (segment (js '' $$x^2$$'')) \<noteq> 1"
  by code_simp

text \<open>
  Claim C5, amended. For every text that itself starts with \<^verbatim>\<open>$$\<close> and ends with
  \<^verbatim>\<open>$$\<close>, \<open>segment\<close> returns exactly one block-math segment whose payload is
  \<^verbatim>\<open>text.slice(2, -2)\<close>: the text without its first two and last two code units (empty
  when the text is shorter than four code units); from four code units on the text is the
  payload between the two delimiters. In particular \<^verbatim>\<open>$$x^2$$\<close> gives one block-math
  segment with payload \<^verbatim>\<open>x^2\<close>.
\<close>

theorem segment_wrapped_block:
  assumes "startsWith text [dollar, dollar]" and "endsWith text [dollar, dollar]"
  shows "segment text = [BlockMath (js_slice text 2 (- 2))] \<and>
         js_slice text 2 (- 2) = take (length text - 4) (drop 2 text) \<and>
         (4 \<le> length text \<longrightarrow>
            text = [dollar, dollar] @ js_slice text 2 (- 2) @ [dollar, dollar])"
proof -
  have "text \<noteq> []" using assms(1) by auto
  then have "segment text = [BlockMath (js_slice text 2 (- 2))]"
    using assms by (simp add: segment_def)
  moreover have "4 \<le> length text \<longrightarrow>
      text = [dollar, dollar] @ js_slice text 2 (- 2) @ [dollar, dollar]"
    using wrapped_restore[OF assms] by (simp add: js_slice_2_m2)
  ultimately show ?thesis by (simp add: js_slice_2_m2)
qed

theorem segment_wrapped_block_witness:
  "startsWith (js ''$$x^2$$'') [dollar, dollar] \<and> endsWith (js ''$$x^2$$'') [dollar, dollar] \<and>
   4 \<le> length (js ''$$x^2$$'') \<and>
   segment (js ''$$x^2$$'') = [BlockMath (js ''x^2'')]"
proof -
  have h: "startsWith (js ''$$x^2$$'') [dollar, dollar]" "endsWith (js ''$$x^2$$'') [dollar, dollar]"
    by code_simp+
  have s: "js_slice (js ''$$x^2$$'') 2 (- 2) = js ''x^2''" by code_simp
  have len: "4 \<le> length (js ''$$x^2$$'')" by (simp add: js_def)
  from segment_wrapped_block [OF h] have seg: "segment (js ''$$x^2$$'') = [BlockMath (js_slice (js ''$$x^2$$'') 2 (- 2))]"
    by (rule conjunct1)
  show ?thesis by (intro conjI h len) (simp only: seg s)
qed

lemma lazy_dot_then_1:
  assumes "\<forall>x \<in> set p. plain_unit x"
  shows "lazy_dot_then [dollar] (p @ dollar # rest) = Some (p, rest)"
  using assms by (induction p) (simp_all add: plain_unit_def)

lemma lazy_dot_then_2:
  assumes "\<forall>x \<in> set p. plain_unit x"
  shows "lazy_dot_then [dollar, dollar] (p @ dollar # dollar # rest) = Some (p, rest)"
  using assms by (induction p) (simp_all add: plain_unit_def)

lemma exec_at_block:
  assumes "\<forall>x \<in> set p. plain_unit x"
  shows "exec_at (dollar # dollar # p @ dollar # dollar # rest)
         = Some ([dollar, dollar] @ p @ [dollar, dollar], rest)"
  using lazy_dot_then_2[OF assms] by (simp add: exec_at_def)

lemma exec_at_inline:
  assumes "\<forall>x \<in> set p. plain_unit x" and "p \<noteq> []"
  shows "exec_at (dollar # p @ dollar # rest) = Some ([dollar] @ p @ [dollar], rest)"
proof -
  obtain c p' where p: "p = c # p'" using assms(2) by (cases p) auto
  then have "c \<noteq> dollar" using assms(1) by (simp add: plain_unit_def)
  then show ?thesis using lazy_dot_then_1[OF assms(1)] by (simp add: exec_at_def p)
qed

lemma exec_at_plain: "c \<noteq> dollar \<Longrightarrow> exec_at (c # cs) = None"
  by (simp add: exec_at_def)

lemma classify_plain:
  assumes "dollar \<notin> set s"
  shows "classify s = PlainText s"
proof -
  have "\<not> startsWith s [dollar]" using assms by (cases s) auto
  moreover have "\<not> startsWith s [dollar, dollar]" using assms by (cases s) auto
  ultimately show ?thesis by (simp add: classify_def)
qed

lemma classify_block:
  "classify ([dollar, dollar] @ p @ [dollar, dollar]) = BlockMath p"
proof -
  have "endsWith (([dollar, dollar] @ p) @ [dollar, dollar]) [dollar, dollar]"
    by (rule endsWith_append)
  then show ?thesis by (simp add: classify_def js_slice_2_m2)
qed

lemma classify_inline:
  assumes "dollar \<notin> set p" and "p \<noteq> []"
  shows "classify ([dollar] @ p @ [dollar]) = InlineMath p"
proof -
  obtain c p' where p: "p = c # p'" using assms(2) by (cases p) auto
  then have c: "c \<noteq> dollar" using assms(1) by auto
  have "endsWith (([dollar] @ p) @ [dollar]) [dollar]"
    by (rule endsWith_append)
  then show ?thesis using c by (simp add: classify_def js_slice_1_m1 p)
qed

lemma restore_Cons [simp]: "restore (s # segs) = restore_segment s @ restore segs"
  by (simp add: restore_def)

lemma takeWhile_span:
  assumes "startsWith (dropWhile P xs) d" and "d \<noteq> []"
  shows "xs = takeWhile P xs @ d @ drop (length d) (dropWhile P xs)"
proof -
  have "dropWhile P xs = take (length d) (dropWhile P xs) @ drop (length d) (dropWhile P xs)"
    by simp
  moreover have "take (length d) (dropWhile P xs) = d"
    using assms(1) by (simp add: startsWith_def)
  ultimately have "dropWhile P xs = d @ drop (length d) (dropWhile P xs)"
    by simp
  then show ?thesis by (metis takeWhile_dropWhile_id)
qed

lemma balanced_roundtrip:
  assumes "balanced True text" and "dollar \<notin> set acc"
  shows "restore (map classify (split_from acc text)) = acc @ text"
  using assms
proof (induction "length text" arbitrary: "text" acc rule: less_induct)
  case less
  show ?case
  proof (cases "text")
    case Nil
    then show ?thesis using less.prems(2)
      by (simp add: classify_plain restore_def restore_segment_def)
  next
    case (Cons c cs)
    show ?thesis
    proof (cases "c = dollar")
      case False
      then have "balanced True cs" using less.prems(1) Cons by simp
      moreover have "dollar \<notin> set (acc @ [c])" using less.prems(2) False by auto
      ultimately have "restore (map classify (split_from (acc @ [c]) cs)) = (acc @ [c]) @ cs"
        using Cons by (intro less.hyps) simp_all
      then show ?thesis using False Cons by (simp add: exec_at_plain)
    next
      case dollar: True
      show ?thesis
      proof (cases "startsWith cs [dollar]")
        case True
        define p where "p = takeWhile (\<lambda>x. x \<noteq> dollar) (tl cs)"
        define r where "r = dropWhile (\<lambda>x. x \<noteq> dollar) (tl cs)"
        from less.prems(1) Cons dollar True
        have b: "list_all (\<lambda>c. \<not> isLineTerminator c) p"
          "startsWith r [dollar, dollar]" "balanced True (drop 2 r)"
          by (simp_all add: p_def r_def Let_def block_payload_ok_def inline_payload_ok_def)
        have cs: "cs = dollar # tl cs" using True by (cases cs) auto
        have "tl cs = p @ [dollar, dollar] @ drop 2 r"
          using takeWhile_span[of "\<lambda>x. x \<noteq> dollar" "tl cs" "[dollar, dollar]"] b(2)
          by (simp add: p_def r_def numeral_2_eq_2)
        then have t: "text = dollar # dollar # p @ dollar # dollar # drop 2 r"
          using Cons dollar cs by simp
        have pl: "\<forall>x \<in> set p. plain_unit x"
          using b(1) by (auto simp: plain_unit_def p_def list_all_iff dest: set_takeWhileD)
        have "length (drop 2 r) < length text" unfolding t by simp
        then have "restore (map classify (split_from [] (drop 2 r))) = [] @ drop 2 r"
          using b(3) by (intro less.hyps) simp_all
        then show ?thesis
          unfolding t using less.prems(2) exec_at_block[OF pl, of "drop 2 r"]
            classify_block[of p]
          by (simp add: classify_plain restore_segment_def)
      next
        case False
        define p where "p = takeWhile (\<lambda>x. x \<noteq> dollar) cs"
        define r where "r = dropWhile (\<lambda>x. x \<noteq> dollar) cs"
        from less.prems(1) Cons dollar False
        have b: "p \<noteq> []" "list_all (\<lambda>c. \<not> isLineTerminator c) p"
          "startsWith r [dollar]" "balanced True (drop 1 r)"
          by (simp_all add: p_def r_def Let_def inline_payload_ok_def)
        have "cs = p @ [dollar] @ drop 1 r"
          using takeWhile_span[of "\<lambda>x. x \<noteq> dollar" cs "[dollar]"] b(3)
          by (simp add: p_def r_def)
        then have t: "text = dollar # p @ dollar # drop 1 r"
          using Cons dollar by simp
        have nd: "dollar \<notin> set p"
          by (auto simp: p_def dest: set_takeWhileD)
        have pl: "\<forall>x \<in> set p. plain_unit x"
          using b(2) nd by (auto simp: plain_unit_def list_all_iff)
        have "length (drop 1 r) < length text" unfolding t by simp
        then have "restore (map classify (split_from [] (drop 1 r))) = [] @ drop 1 r"
          using b(4) by (intro less.hyps) simp_all
        then show ?thesis
          unfolding t using less.prems(2) exec_at_inline[OF pl b(1), of "drop 1 r"]
            classify_inline[OF nd b(1)]
          by (simp add: classify_plain restore_segment_def)
      qed
    qed
  qed
qed

lemma balanced_wrapped_length:
  assumes "balanced True text" and "startsWith text [dollar, dollar]"
  shows "4 \<le> length text"
proof -
  obtain cs where t: "text = dollar # dollar # cs"
    using assms(2) by (cases "text"; cases "tl text") auto
  define r where "r = dropWhile (\<lambda>x. x \<noteq> dollar) cs"
  from assms(1) have "startsWith r [dollar, dollar]"
    by (simp add: t r_def Let_def inline_payload_ok_def)
  then have "2 \<le> length r"
    by (cases r; cases "tl r") auto
  moreover have "length r \<le> length cs"
    unfolding r_def by (rule length_dropWhile_le)
  ultimately show ?thesis by (simp add: t)
qed

text \<open>
  Claim C6, as stated: for every text with balanced delimiters, restoring the segments
  gives the text back. A block formula that spans several lines inside a longer text is
  balanced, but \<^verbatim>\<open>.\<close> does not match its line terminators: the split finds two spans
  \<^verbatim>\<open>$$\<close> with an empty payload instead, each of them becomes a block-math segment with
  the empty payload, and restoring gives four \<^verbatim>\<open>$\<close> for each of them. The same happens
  to an inline span with the empty payload.
\<close>

theorem segment_multiline_roundtrip_fails:
  "balanced False (js ''a$$'' @ [0x0A] @ js ''x'' @ [0x0A] @ js ''$$'') \<and>
   restore (segment (js ''a$$'' @ [0x0A] @ js ''x'' @ [0x0A] @ js ''$$''))
     = js ''a$$$$'' @ [0x0A] @ js ''x'' @ [0x0A] @ js ''$$$$'' \<and>
   restore (segment (js ''a$$'' @ [0x0A] @ js ''x'' @ [0x0A] @ js ''$$''))
     \<noteq> js ''a$$'' @ [0x0A] @ js ''x'' @ [0x0A] @ js ''$$'' \<and>
   balanced False (js ''x$$y'') \<and>
   restore (segment (js ''x$$y'')) = js ''x$$$$y'' \<and>
   restore (segment (js ''x$$y'')) \<noteq> js ''x$$y''"
  by code_simp

text \<open>
  Claim C6, amended. For every text with balanced delimiters in which no math payload
  contains a line terminator and no inline payload is empty (every \<^verbatim>\<open>$\<close> belongs to a
  span \<^verbatim>\<open>$p$\<close> with a payload that is not empty or to a span \<^verbatim>\<open>$$p$$\<close>, and no payload
  contains \<^verbatim>\<open>$\<close> or a line terminator), restoring the segments gives the text back.
\<close>

theorem segment_roundtrip_single_line:
  assumes "balanced True text"
  shows "restore (segment text) = text"
proof (cases "text \<noteq> [] \<and> startsWith text [dollar, dollar] \<and> endsWith text [dollar, dollar]")
  case True
  then have "4 \<le> length text" using assms balanced_wrapped_length by blast
  with True have "[dollar, dollar] @ take (length text - 4) (drop 2 text) @ [dollar, dollar] = text"
    by (intro wrapped_restore) simp_all
  with True show ?thesis
    by (simp add: segment_def restore_def restore_segment_def js_slice_2_m2)
next
  case False
  then have "segment text = (if text = [] then [] else map classify (js_split text))"
    by (auto simp: segment_def)
  with balanced_roundtrip[OF assms, of "[]"] show ?thesis
    by (auto simp: js_split_def restore_def)
qed

theorem segment_roundtrip_single_line_witness:
  "balanced True (js ''a $x$ b $$y$$ c $$$$'') \<and>
   restore (segment (js ''a $x$ b $$y$$ c $$$$'')) = js ''a $x$ b $$y$$ c $$$$''"
proof -
  have "balanced True (js ''a $x$ b $$y$$ c $$$$'')" by code_simp
  with segment_roundtrip_single_line [of "js ''a $x$ b $$y$$ c $$$$''"] show ?thesis by simp
qed

section \<open>Layouts: verified properties\<close>

lemma Math_ceil_half_eq: "Math_ceil_half n = int ((n + 1) div 2)"
proof -
  have "\<lceil>(of_nat n :: rat) / 2\<rceil> = int ((n + 1) div 2)"
  proof (rule ceiling_unique)
    show "of_int (int ((n + 1) div 2)) - 1 < (of_nat n :: rat) / 2"
    proof -
      have "2 * ((n + 1) div 2) < n + 2" by simp
      then have "(of_nat (2 * ((n + 1) div 2)) :: rat) < of_nat (n + 2)"
        by (simp only: of_nat_less_iff)
      then show ?thesis by (simp add: field_simps)
    qed
    show "(of_nat n :: rat) / 2 \<le> of_int (int ((n + 1) div 2))"
    proof -
      have "n \<le> 2 * ((n + 1) div 2)" by simp
      then have "(of_nat n :: rat) \<le> of_nat (2 * ((n + 1) div 2))"
        by (simp only: of_nat_le_iff)
      then show ?thesis by (simp add: field_simps)
    qed
  qed
  then show ?thesis by (simp add: Math_ceil_half_def)
qed

lemma js_slice_prefix: "k \<le> length s \<Longrightarrow> js_slice s 0 (int k) = take k s"
  by (simp add: js_slice_def)

lemma js_slice_from_suffix: "k \<le> length s \<Longrightarrow> js_slice_from s (int k) = drop k s"
  by (simp add: js_slice_from_def js_slice_def nat_diff_distrib')

lemma leftContent_take:
  "leftContent slide = take ((length (content slide) + 1) div 2) (content slide)"
  by (simp add: leftContent_def Math_ceil_half_eq js_slice_prefix)

lemma rightContent_drop:
  "rightContent slide = drop ((length (content slide) + 1) div 2) (content slide)"
  by (simp add: rightContent_def Math_ceil_half_eq js_slice_from_suffix)

lemma elements_named_render_segment [simp]:
  "elements_named ''ul'' (render_segment i seg) = []"
  by (cases seg) (simp_all add: block_math_def)

lemma elements_named_SmartText [simp]: "elements_named ''ul'' (SmartText t) = []"
  by (auto simp: SmartText_def block_math_def Let_def)

text \<open>
  Claim C8. For a slide with the layout \<^verbatim>\<open>split\<close> and \<open>n\<close> content items, the left column
  shows the first \<open>ceil(n/2)\<close> items in order and the right column the remaining ones, and
  the two lists have one and the same font size, computed from the whole content list.
  For five items the left column has three and the right column two.
\<close>

theorem split_columns_ceil_half:
  "leftContent slide = take (nat \<lceil>(of_nat (length (content slide)) :: rat) / 2\<rceil>) (content slide) \<and>
   rightContent slide = drop (nat \<lceil>(of_nat (length (content slide)) :: rat) / 2\<rceil>) (content slide) \<and>
   nat \<lceil>(of_nat (length (content slide)) :: rat) / 2\<rceil> = (length (content slide) + 1) div 2 \<and>
   leftContent slide @ rightContent slide = content slide \<and>
   (layout slide = js ''split'' \<longrightarrow>
      elements_named ''ul'' (renderLayout isThumbnail imgLoaded slide) =
        [Element ''ul''
           [ClassName ''space-y-3 text-slate-600'',
            FontSize (getDynamicFontSize isThumbnail (content slide)
                        (if isThumbnail then num 9 else num 18)
                        (if isThumbnail then num 7 else num 12))]
           (list_items ''mr-2 text-indigo-500 flex-shrink-0 mt-1.5'' (leftContent slide)),
         Element ''ul''
           [ClassName ''space-y-3 text-slate-600'',
            FontSize (getDynamicFontSize isThumbnail (content slide)
                        (if isThumbnail then num 9 else num 18)
                        (if isThumbnail then num 7 else num 12))]
           (list_items ''mr-2 text-indigo-500 flex-shrink-0 mt-1.5'' (rightContent slide))])"
proof -
  have k: "nat \<lceil>(of_nat (length (content slide)) :: rat) / 2\<rceil> = (length (content slide) + 1) div 2"
    using Math_ceil_half_eq[of "length (content slide)"] by (simp add: Math_ceil_half_def)
  have s: "js ''split'' \<noteq> js ''title''" "js ''split'' \<noteq> js ''quote''"
    "js ''split'' \<noteq> js ''image-left''" "js ''split'' \<noteq> js ''image-right''"
    by (simp_all add: js_def)
  have r: "layout slide = js ''split'' \<longrightarrow>
      renderLayout isThumbnail imgLoaded slide = renderSplit isThumbnail slide"
    using s by (simp add: renderLayout_def)
  show ?thesis
    unfolding k using r
    by (simp add: leftContent_take rightContent_drop renderSplit_def splitFontSize_def)
qed

theorem split_columns_ceil_half_witness:
  "layout five = js ''split'' \<and> length (content five) = 5 \<and>
   leftContent five = [js ''a'', js ''b'', js ''c''] \<and>
   rightContent five = [js ''d'', js ''e''] \<and>
   map (\<lambda>ul. case ul of Element t attrs children \<Rightarrow> length children | _ \<Rightarrow> 0)
     (elements_named ''ul'' (renderLayout False False five)) = [3, 2]"
proof -
  have h: "layout five = js ''split''" by (simp add: five_def)
  have c: "content five = [js ''a'', js ''b'', js ''c'', js ''d'', js ''e'']"
    by (simp add: five_def)
  have k: "nat \<lceil>(of_nat (length (content five)) :: rat) / 2\<rceil> = 3"
    using split_columns_ceil_half [of five False False] by (simp add: c)
  have l: "leftContent five = [js ''a'', js ''b'', js ''c'']"
    using split_columns_ceil_half [of five False False] unfolding k by (simp add: c)
  have r: "rightContent five = [js ''d'', js ''e'']"
    using split_columns_ceil_half [of five False False] unfolding k by (simp add: c)
  from split_columns_ceil_half [of five False False] h
  have "elements_named ''ul'' (renderLayout False False five) =
        [Element ''ul''
           [ClassName ''space-y-3 text-slate-600'',
            FontSize (getDynamicFontSize False (content five) (num 18) (num 12))]
           (list_items ''mr-2 text-indigo-500 flex-shrink-0 mt-1.5'' (leftContent five)),
         Element ''ul''
           [ClassName ''space-y-3 text-slate-600'',
            FontSize (getDynamicFontSize False (content five) (num 18) (num 12))]
           (list_items ''mr-2 text-indigo-500 flex-shrink-0 mt-1.5'' (rightContent five))]"
    by simp
  then show ?thesis using h c l r by (simp add: list_items_def)
qed

text \<open>
  Claim C9. The choice of the template is total: every layout tag outside the six
  declared ones is rendered as the tag \<^verbatim>\<open>content\<close> is; in particular \<^verbatim>\<open>bogus-tag\<close> is.
\<close>

theorem renderLayout_unknown_tag_is_content:
  assumes "layout slide \<notin> js ` {''title'', ''content'', ''split'', ''quote'', ''image-left'', ''image-right''}"
  shows "renderLayout isThumbnail imgLoaded slide
         = renderLayout isThumbnail imgLoaded (slide\<lparr>layout := js ''content''\<rparr>)"
proof -
  have "js ''content'' \<notin> js ` {''title'', ''split'', ''quote'', ''image-left'', ''image-right''}"
    by (simp add: js_def)
  with assms show ?thesis
    by (simp add: renderLayout_def renderContent_def)
qed

theorem renderLayout_unknown_tag_is_content_witness:
  "js ''bogus-tag'' \<notin> js ` {''title'', ''content'', ''split'', ''quote'', ''image-left'', ''image-right''} \<and>
   renderLayout False False (quote_one\<lparr>layout := js ''bogus-tag''\<rparr>)
     = renderLayout False False (quote_one\<lparr>layout := js ''content''\<rparr>)"
proof -
  have h: "js ''bogus-tag'' \<notin> js ` {''title'', ''content'', ''split'', ''quote'', ''image-left'', ''image-right''}"
    by (simp add: js_def)
  from renderLayout_unknown_tag_is_content [of "quote_one\<lparr>layout := js ''bogus-tag''\<rparr>" False False] h
  show ?thesis by simp
qed

text \<open>
  Claim C3, as stated: for the quote layout the rendering, the font size of the quoted
  text included, depends on \<^verbatim>\<open>content[0]\<close> only. The code shows \<^verbatim>\<open>content[0]\<close> only, but
  it passes the whole content list to the font size estimator, as every layout does for
  its body: two quote slides with the same title and the same first entry, one of them
  with seven more entries, are rendered differently in full mode (40 pixels against 39).
\<close>

theorem renderQuote_font_reads_whole_content:
  "title quote_one = title quote_many \<and> subtitle quote_one = subtitle quote_many \<and>
   layout quote_one = js ''quote'' \<and> layout quote_many = js ''quote'' \<and>
   index0 (content quote_one) = index0 (content quote_many) \<and>
   getDynamicFontSize False (content quote_one) (num 40) (num 20) = Px (Fin 40) \<and>
   getDynamicFontSize False (content quote_many) (num 40) (num 20) = Px (Fin 39) \<and>
   renderLayout False False quote_one \<noteq> renderLayout False False quote_many"
proof -
  have "js ''quote'' \<noteq> js ''title''" by (simp add: js_def)
  then show ?thesis
    by (simp add: quote_one_def quote_many_def renderLayout_def renderQuote_def font_one font_many
        index0_eight index0_Cons)
qed

text \<open>
  Claim C3, amended. For the quote layout the quoted text that is shown is \<^verbatim>\<open>content[0]\<close>
  only, and the font size of that text is computed from the whole content list: two
  slides that agree on the title, on the layout \<^verbatim>\<open>quote\<close> and on \<^verbatim>\<open>content[0]\<close> are
  rendered identically exactly when the estimator gives the same font size for their
  content lists. In thumbnail mode it always does, so there the rendering depends on the
  title and \<^verbatim>\<open>content[0]\<close> only.
\<close>

theorem renderQuote_depends_on_font_size:
  assumes "layout s = js ''quote''" and "layout s' = js ''quote''"
    and "title s = title s'" and "index0 (content s) = index0 (content s')"
  shows "(renderLayout isThumbnail imgLoaded s = renderLayout isThumbnail imgLoaded s' \<longleftrightarrow>
            getDynamicFontSize isThumbnail (content s)
              (if isThumbnail then num 14 else num 40) (if isThumbnail then num 10 else num 20)
          = getDynamicFontSize isThumbnail (content s')
              (if isThumbnail then num 14 else num 40) (if isThumbnail then num 10 else num 20)) \<and>
         renderLayout True imgLoaded s = renderLayout True imgLoaded s'"
proof -
  have q: "js ''quote'' \<noteq> js ''title''" by (simp add: js_def)
  have "getDynamicFontSize True (content s) (num 14) (num 10)
        = getDynamicFontSize True (content s') (num 14) (num 10)"
    by (simp add: getDynamicFontSize_def)
  with assms q show ?thesis
    by (simp add: renderLayout_def renderQuote_def)
qed

theorem renderQuote_depends_on_font_size_witness:
  "layout quote_one = js ''quote'' \<and> layout quote_many = js ''quote'' \<and>
   title quote_one = title quote_many \<and>
   index0 (content quote_one) = index0 (content quote_many) \<and>
   renderLayout True False quote_one = renderLayout True False quote_many \<and>
   (renderLayout False False quote_one = renderLayout False False quote_many \<longleftrightarrow>
      getDynamicFontSize False (content quote_one) (num 40) (num 20)
      = getDynamicFontSize False (content quote_many) (num 40) (num 20))"
proof -
  have h: "layout quote_one = js ''quote''" "layout quote_many = js ''quote''"
    "title quote_one = title quote_many"
    "index0 (content quote_one) = index0 (content quote_many)"
    by (simp_all add: quote_one_def quote_many_def index0_eight index0_Cons)
  from renderQuote_depends_on_font_size [OF h, of False False] h show ?thesis
    by simp
qed

end
